theory Spec2Isabelle
  imports Main "HOL-Library.Word" "HOL-Library.Signed_Division"
    "HOL-Library.List_Lexorder" "HOL-Library.Char_ord"
begin

section \<open>Timestamps\<close>

text \<open>
  A \<open>time.Time\<close> of the module index is decoded from a JSON string that ends in
  \<open>Z\<close>: it has no monotonic clock reading and its location is UTC. For such values Go's
  \<open>==\<close> on the struct, which \<open>SynchronizeDatabase\<close> and the \<open>index update\<close> command use,
  is equality of the instant. A timestamp is modelled as that instant: the nanoseconds
  since 0001-01-01T00:00:00Z, Go's zero \<open>Time\<close>. Timestamps with another zone offset
  carry a location pointer and are outside this model.
\<close>

type_synonym time = int

definition IsZero :: "time \<Rightarrow> bool" where
  "IsZero t \<longleftrightarrow> t = 0"

subsection \<open>The calendar of package time\<close>

definition isLeap :: "int \<Rightarrow> bool" where
  "isLeap year \<longleftrightarrow> year mod 4 = 0 \<and> (year mod 100 \<noteq> 0 \<or> year mod 400 = 0)"

definition daysBefore :: "nat \<Rightarrow> int" where
  "daysBefore m = [0, 31, 59, 90, 120, 151, 181, 212, 243, 273, 304, 334, 365] ! m"

definition daysIn :: "int \<Rightarrow> int \<Rightarrow> int" where
  "daysIn month year =
     (if month = 2 \<and> isLeap year then 29
      else daysBefore (nat month) - daysBefore (nat month - 1))"

text \<open>Days from 0001-01-01 to the first day of \<open>year\<close>.\<close>

definition daysSinceEpoch :: "int \<Rightarrow> int" where
  "daysSinceEpoch year =
     (let y = year - 1 in 365 * y + y div 4 - y div 100 + y div 400)"

text \<open>
  \<open>time.Date\<close> in UTC, for fields that are in range (\<open>Parse\<close> checks the ranges before
  it calls \<open>Date\<close>, so the normalisation of overflowing fields never runs there).
\<close>

definition Date :: "int \<Rightarrow> int \<Rightarrow> int \<Rightarrow> int \<Rightarrow> int \<Rightarrow> int \<Rightarrow> int \<Rightarrow> time" where
  "Date year month day hour minute sec nsec =
     (let d = daysSinceEpoch year + daysBefore (nat month - 1)
              + (if isLeap year \<and> 3 \<le> month then 1 else 0) + (day - 1)
      in (((d * 24 + hour) * 60 + minute) * 60 + sec) * 1000000000 + nsec)"

text \<open>
  The year and the day within the year (from 0) of a day count, by the 400-, 100-, 4-
  and 1-year cycles of the proleptic Gregorian calendar.
\<close>

definition absDate :: "int \<Rightarrow> int \<times> int" where
  "absDate d =
     (let n400 = d div 146097; r400 = d mod 146097;
          n100 = min 3 (r400 div 36524); r100 = r400 - 36524 * n100;
          n4 = r100 div 1461; r4 = r100 mod 1461;
          n1 = min 3 (r4 div 365); yday = r4 - 365 * n1
      in (400 * n400 + 100 * n100 + 4 * n4 + n1 + 1, yday))"

text \<open>Month (1 to 12) and day of the month of a day within the year.\<close>

definition monthDay :: "bool \<Rightarrow> int \<Rightarrow> int \<times> int" where
  "monthDay leap yday =
     (if leap \<and> yday = 59 then (2, 29)
      else
        let day = (if leap \<and> 59 < yday then yday - 1 else yday);
            m = nat (day div 31);
            e = daysBefore (m + 1);
            m' = (if e \<le> day then m + 1 else m);
            b = (if e \<le> day then e else daysBefore m)
        in (int m' + 1, day - b + 1))"

subsection \<open>Format with the layout RFC3339Nano\<close>

definition digit :: "int \<Rightarrow> char" where
  "digit d = ''0123456789'' ! nat d"

text \<open>The \<open>w\<close> low-order decimal digits of \<open>n\<close>, most significant first.\<close>

fun decimal :: "nat \<Rightarrow> int \<Rightarrow> string" where
  "decimal 0 n = []"
| "decimal (Suc w) n = decimal w (n div 10) @ [digit (n mod 10)]"

function digitsLen :: "int \<Rightarrow> nat" where
  "digitsLen n = (if n < 10 then 1 else Suc (digitsLen (n div 10)))"
  by pat_completeness auto
termination
  by (relation "measure nat") auto

text \<open>\<open>appendInt\<close>: the decimal form of \<open>x\<close>, padded with zeros to \<open>width\<close>.\<close>

definition appendInt :: "int \<Rightarrow> nat \<Rightarrow> string" where
  "appendInt x width =
     (if x < 0 then ''-'' else []) @ decimal (max width (digitsLen \<bar>x\<bar>)) \<bar>x\<bar>"

definition trimZeros :: "string \<Rightarrow> string" where
  "trimZeros s = rev (dropWhile (\<lambda>c. c = CHR ''0'') (rev s))"

text \<open>
  \<open>appendNano\<close> for the fraction \<open>.999999999\<close>: nothing for a whole second, else the
  nine digits without their trailing zeros.
\<close>

definition appendNano :: "int \<Rightarrow> string" where
  "appendNano nanosec =
     (if nanosec = 0 then [] else CHR ''.'' # trimZeros (appendInt nanosec 9))"

text \<open>\<open>t.Format(time.RFC3339Nano)\<close> of a UTC time.\<close>

definition Format :: "time \<Rightarrow> string" where
  "Format t =
     (let sec = t div 1000000000; nsec = t mod 1000000000;
          days = sec div 86400; sod = sec mod 86400;
          (year, yday) = absDate days;
          (month, day) = monthDay (isLeap year) yday
      in appendInt year 4 @ ''-'' @ appendInt month 2 @ ''-'' @ appendInt day 2 @ ''T''
         @ appendInt (sod div 3600) 2 @ '':'' @ appendInt (sod mod 3600 div 60) 2 @ '':''
         @ appendInt (sod mod 60) 2 @ appendNano nsec @ ''Z'')"

subsection \<open>Parse with the layout RFC3339Nano\<close>

definition isDigit :: "char \<Rightarrow> bool" where
  "isDigit c \<longleftrightarrow> CHR ''0'' \<le> c \<and> c \<le> CHR ''9''"

definition atoi :: "string \<Rightarrow> int option" where
  "atoi s = (if list_all isDigit s
             then Some (foldl (\<lambda>x c. x * 10 + (of_char c - 48)) 0 s) else None)"

definition parseUint :: "string \<Rightarrow> int \<Rightarrow> int \<Rightarrow> int option" where
  "parseUint s lo hi =
     (case atoi s of None \<Rightarrow> None
      | Some x \<Rightarrow> if x < lo \<or> hi < x then None else Some x)"

text \<open>The Go slice expression \<open>s[i:j]\<close>.\<close>

definition slice :: "string \<Rightarrow> nat \<Rightarrow> nat \<Rightarrow> string" where
  "slice s i j = take (j - i) (drop i s)"

text \<open>The digits after the point, cut to nine and scaled to nanoseconds.\<close>

definition parseNanoseconds :: "string \<Rightarrow> int" where
  "parseNanoseconds ds =
     (let ds9 = take 9 ds
      in foldl (\<lambda>x c. x * 10 + (of_char c - 48)) 0 ds9 * 10 ^ (9 - length ds9))"

definition parseZone :: "string \<Rightarrow> int option" where
  "parseZone s =
     (if s = ''Z'' then Some 0
      else if length s \<noteq> 6 then None
      else
        case (parseUint (slice s 1 3) 0 23, parseUint (slice s 4 6) 0 59) of
          (Some hr, Some mm) \<Rightarrow>
            if (s ! 0 = CHR ''-'' \<or> s ! 0 = CHR ''+'') \<and> s ! 3 = CHR '':''
            then Some ((if s ! 0 = CHR ''-'' then -1 else 1) * ((hr * 60 + mm) * 60))
            else None
        | _ \<Rightarrow> None)"

text \<open>
  The fractional second at the head of \<open>r\<close>: a point and at least one digit. The
  result is the nanoseconds and the rest of the string.
\<close>

definition parseFraction :: "string \<Rightarrow> int \<times> string" where
  "parseFraction r =
     (if 2 \<le> length r \<and> r ! 0 = CHR ''.'' \<and> isDigit (r ! 1)
      then let frac = takeWhile isDigit (drop 1 r)
           in (parseNanoseconds frac, drop (1 + length frac) r)
      else (0, r))"

text \<open>
  \<open>time.Parse(time.RFC3339Nano, s)\<close>, as its RFC 3339 path reads a string; the result
  is the instant (a zone offset is subtracted, the location is not kept). \<open>None\<close> is the
  parse error.
\<close>

definition Parse :: "string \<Rightarrow> time option" where
  "Parse s =
     (if length s < 19 then None
      else
        case (parseUint (slice s 0 4) 0 9999, parseUint (slice s 5 7) 1 12) of
          (Some year, Some month) \<Rightarrow>
            (case (parseUint (slice s 8 10) 1 (daysIn month year),
                   parseUint (slice s 11 13) 0 23,
                   parseUint (slice s 14 16) 0 59,
                   parseUint (slice s 17 19) 0 59) of
               (Some day, Some hour, Some minute, Some sec) \<Rightarrow>
                 if \<not> (s ! 4 = CHR ''-'' \<and> s ! 7 = CHR ''-'' \<and> s ! 10 = CHR ''T''
                        \<and> s ! 13 = CHR '':'' \<and> s ! 16 = CHR '':'')
                 then None
                 else
                   (case parseFraction (drop 19 s) of
                      (nsec, z) \<Rightarrow>
                        (case parseZone z of
                           None \<Rightarrow> None
                         | Some zoneOffset \<Rightarrow>
                             Some (Date year month day hour minute sec nsec
                                   - zoneOffset * 1000000000)))
             | _ \<Rightarrow> None)
        | _ \<Rightarrow> None)"

text \<open>
  The timestamps a feed record can hold: the JSON decoder accepts the years 0000 to 9999
  only.
\<close>

definition minTime :: time where
  "minTime = - (366 * 86400 * 1000000000)"

definition maxTime :: time where
  "maxTime = 3652059 * 86400 * 1000000000 - 1"

definition validTime :: "time \<Rightarrow> bool" where
  "validTime t \<longleftrightarrow> minTime \<le> t \<and> t \<le> maxTime"

section \<open>Records of the index and the store\<close>

record VersionInfo =
  Path :: string
  Version :: string
  Timestamp :: time

text \<open>The value of \<open>var last index.VersionInfo\<close>.\<close>

definition zeroVersionInfo :: VersionInfo where
  "zeroVersionInfo = \<lparr>Path = [], Version = [], Timestamp = 0\<rparr>"

datatype error =
    ParseTimestamp
  | GetVersions string
  | InsertPath
  | InsertVersion
  | InsertBatch error

text \<open>
  The two tables of \<open>index.db\<close>: \<open>paths (id, path)\<close> with \<open>id\<close> the primary key and
  \<open>path\<close> unique, and \<open>versions (path_id, version, timestamp)\<close> with the primary key
  \<open>(path_id, version)\<close> and the timestamp stored as text. Rows are kept in the order
  of their insertion.
\<close>

record tables =
  paths :: "(int \<times> string) list"
  versions :: "((int \<times> string) \<times> string) list"

text \<open>
  The database behind the \<open>*sql.DB\<close>: what is committed, and the working copy of a
  transaction that was begun and neither committed nor rolled back.
\<close>

record database =
  committed :: tables
  pending :: "tables option"

text \<open>\<open>SELECT id FROM paths WHERE path = ?\<close>\<close>

definition selectPathID :: "tables \<Rightarrow> string \<Rightarrow> int option" where
  "selectPathID tx p = map_of (map (\<lambda>(i, q). (q, i)) (paths tx)) p"

text \<open>
  \<open>INSERT INTO paths (path) VALUES (?)\<close> and \<open>LastInsertId\<close>: the new row gets the
  largest id in use plus one (1 in an empty table); the statement fails when the path is
  there already.
\<close>

definition insertPath :: "tables \<Rightarrow> string \<Rightarrow> error + int \<times> tables" where
  "insertPath tx p =
     (if p \<in> snd ` set (paths tx) then Inl InsertPath
      else
        let i = (if paths tx = [] then 1 else Max (fst ` set (paths tx)) + 1)
        in Inr (i, tx\<lparr>paths := paths tx @ [(i, p)]\<rparr>))"

text \<open>
  \<open>INSERT INTO versions (path_id, version, timestamp) VALUES (?, ?, ?)\<close>: fails on a row
  with the same primary key, and (foreign keys are on) on a \<open>path_id\<close> that is no id
  of \<open>paths\<close>.
\<close>

definition insertVersion :: "tables \<Rightarrow> int \<Rightarrow> string \<Rightarrow> string \<Rightarrow> error + tables" where
  "insertVersion tx pathID ver ts =
     (if (pathID, ver) \<in> fst ` set (versions tx) \<or> pathID \<notin> fst ` set (paths tx)
      then Inl InsertVersion
      else Inr (tx\<lparr>versions := versions tx @ [((pathID, ver), ts)]\<rparr>))"

text \<open>
  \<open>INSERT OR REPLACE INTO versions ...\<close>: a row with the same primary key is deleted
  before the new row is inserted.
\<close>

definition insertOrReplaceVersion ::
  "tables \<Rightarrow> int \<Rightarrow> string \<Rightarrow> string \<Rightarrow> error + tables" where
  "insertOrReplaceVersion tx pathID ver ts =
     (if pathID \<notin> fst ` set (paths tx) then Inl InsertVersion
      else Inr (tx\<lparr>versions :=
                  filter (\<lambda>r. fst r \<noteq> (pathID, ver)) (versions tx) @ [((pathID, ver), ts)]\<rparr>))"

text \<open>
  The feed: \<open>client.GetVersions(ctx, since, limit)\<close>, with \<open>Inl\<close> the transport or
  decoding error.
\<close>

type_synonym feed = "time \<Rightarrow> nat \<Rightarrow> string + VersionInfo list"

text \<open>How a run ends: \<open>return nil\<close> after "Index is up-to-date", an error, or a panic.\<close>

datatype outcome = UpToDate | Failed error | Panicked

text \<open>
  The state of a run: the database, the cursor \<open>last\<close>, the \<open>since\<close> of every
  \<open>GetVersions\<close> call so far, and the \<open>BUG: index: expected list to start with ... but
  got ...\<close> lines written to standard error (the expected and the received record).
\<close>

record sync_state =
  db :: database
  lastv :: VersionInfo
  requests :: "time list"
  stderr :: "(VersionInfo \<times> VersionInfo) list"

datatype step = Continue sync_state | Stop outcome sync_state

section \<open>modindex: lastVersionInfo, insertVersions, SynchronizeDatabase\<close>

text \<open>
  \<open>SELECT p.path, v.version, v.timestamp FROM versions AS v JOIN paths AS p
  ON p.id = v.path_id ORDER BY v.timestamp DESC LIMIT 1\<close>. A joined row is the path,
  the primary key \<open>(path_id, version)\<close> of the version row and its timestamp text.
  \<open>versions\<close> is a table without rowid, so the entries of its index on \<open>timestamp\<close>
  are ordered by the timestamp text and then by the primary key; the query returns the
  row that is last in that order. Texts compare byte by byte.
\<close>

definition joinedRows :: "tables \<Rightarrow> (string \<times> (int \<times> string) \<times> string) list" where
  "joinedRows t =
     concat (map (\<lambda>r. map (\<lambda>p. (snd p, fst r, snd r))
                          (filter (\<lambda>p. fst p = fst (fst r)) (paths t)))
                 (versions t))"

definition rowBefore ::
  "string \<times> (int \<times> string) \<times> string \<Rightarrow> string \<times> (int \<times> string) \<times> string \<Rightarrow> bool" where
  "rowBefore r r' \<longleftrightarrow>
     snd (snd r) < snd (snd r')
     \<or> (snd (snd r) = snd (snd r')
         \<and> (fst (fst (snd r)) < fst (fst (snd r'))
              \<or> (fst (fst (snd r)) = fst (fst (snd r'))
                  \<and> snd (fst (snd r)) < snd (fst (snd r')))))"

fun maxRow ::
  "(string \<times> (int \<times> string) \<times> string) list
   \<Rightarrow> (string \<times> (int \<times> string) \<times> string) option" where
  "maxRow [] = None"
| "maxRow (r # rs) =
     (case maxRow rs of
        None \<Rightarrow> Some r
      | Some r' \<Rightarrow> if rowBefore r r' then Some r' else Some r)"

definition lastVersionInfo :: "database \<Rightarrow> error + VersionInfo" where
  "lastVersionInfo d =
     (case maxRow (joinedRows (committed d)) of
        None \<Rightarrow> Inr zeroVersionInfo
      | Some (p, k, ts) \<Rightarrow>
          (case Parse ts of
             None \<Rightarrow> Inl ParseTimestamp
           | Some t \<Rightarrow> Inr \<lparr>Path = p, Version = snd k, Timestamp = t\<rparr>))"

text \<open>The body of the \<open>for _, v := range versions\<close> loop of \<open>insertVersions\<close>.\<close>

definition insertRow :: "tables \<Rightarrow> VersionInfo \<Rightarrow> error + tables" where
  "insertRow tx v =
     (case selectPathID tx (Path v) of
        None \<Rightarrow>
          (case insertPath tx (Path v) of
             Inl e \<Rightarrow> Inl e
           | Inr (pathID, tx') \<Rightarrow> insertVersion tx' pathID (Version v) (Format (Timestamp v)))
      | Some pathID \<Rightarrow> insertVersion tx pathID (Version v) (Format (Timestamp v)))"

text \<open>
  The loop: on an error the function returns at once; the second component is the
  working copy of the transaction at that point.
\<close>

fun insertRows :: "tables \<Rightarrow> VersionInfo list \<Rightarrow> error option \<times> tables" where
  "insertRows tx [] = (None, tx)"
| "insertRows tx (v # vs) =
     (case insertRow tx v of
        Inl e \<Rightarrow> (Some e, tx)
      | Inr tx' \<Rightarrow> insertRows tx' vs)"

text \<open>
  \<open>insertVersions\<close>: \<open>BeginTx\<close>, the loop, \<open>Commit\<close>. An error return leaves the
  transaction open (there is no \<open>Rollback\<close>): nothing of it is committed.
\<close>

definition insertVersions :: "database \<Rightarrow> VersionInfo list \<Rightarrow> error option \<times> database" where
  "insertVersions d vs =
     (case insertRows (committed d) vs of
        (Some e, tx) \<Rightarrow> (Some e, d\<lparr>pending := Some tx\<rparr>)
      | (None, tx) \<Rightarrow> (None, d\<lparr>committed := tx, pending := None\<rparr>))"

text \<open>
  Lines 62 to 77 of \<open>SynchronizeDatabase\<close>: the value of \<open>versionsToInsert\<close> and the
  line for standard error. In the last branch the arguments of \<open>Fprintf\<close> read
  \<open>versions[0]\<close>, which panics on an empty slice.
\<close>

definition versionsToInsert ::
  "VersionInfo \<Rightarrow> VersionInfo list \<Rightarrow> ((VersionInfo \<times> VersionInfo) list \<times> VersionInfo list) option" where
  "versionsToInsert l vs =
     (if IsZero (Timestamp l) then Some ([], vs)
      else if 0 < length vs \<and> Timestamp (vs ! 0) = Timestamp l
              \<and> Path (vs ! 0) = Path l \<and> Version (vs ! 0) = Version l
      then Some ([], drop 1 vs)
      else if vs = [] then None
      else Some ([(l, vs ! 0)], vs))"

text \<open>The rest of the loop body, from the fetched \<open>versions\<close> on.\<close>

definition syncBatch :: "sync_state \<Rightarrow> VersionInfo list \<Rightarrow> step" where
  "syncBatch s vs =
     (case versionsToInsert (lastv s) vs of
        None \<Rightarrow> Stop Panicked s
      | Some (bug, toInsert) \<Rightarrow>
          let s1 = s\<lparr>stderr := stderr s @ bug\<rparr>
          in if length toInsert = 0 then Stop UpToDate s1
             else
               (case insertVersions (db s1) toInsert of
                  (Some e, d) \<Rightarrow> Stop (Failed (InsertBatch e)) (s1\<lparr>db := d\<rparr>)
                | (None, d) \<Rightarrow> Continue (s1\<lparr>db := d, lastv := last toInsert\<rparr>)))"

text \<open>One iteration: the call of \<open>GetVersions\<close> with the limit 2000, then the body.\<close>

definition syncIteration :: "feed \<Rightarrow> sync_state \<Rightarrow> step" where
  "syncIteration getVersions s =
     (let s1 = s\<lparr>requests := requests s @ [Timestamp (lastv s)]\<rparr>
      in case getVersions (Timestamp (lastv s)) 2000 of
           Inl e \<Rightarrow> Stop (Failed (GetVersions e)) s1
         | Inr vs \<Rightarrow> syncBatch s1 vs)"

text \<open>
  The \<open>for\<close> loop, which need not end: \<open>None\<close> when it is still running after \<open>n\<close>
  iterations.
\<close>

fun syncLoop :: "feed \<Rightarrow> nat \<Rightarrow> sync_state \<Rightarrow> (outcome \<times> sync_state) option" where
  "syncLoop getVersions 0 s = None"
| "syncLoop getVersions (Suc n) s =
     (case syncIteration getVersions s of
        Stop out s' \<Rightarrow> Some (out, s')
      | Continue s' \<Rightarrow> syncLoop getVersions n s')"

text \<open>\<open>SynchronizeDatabase\<close> on an open database.\<close>

definition SynchronizeDatabase ::
  "feed \<Rightarrow> nat \<Rightarrow> database \<Rightarrow> (outcome \<times> sync_state) option" where
  "SynchronizeDatabase getVersions n d =
     (case lastVersionInfo d of
        Inl e \<Rightarrow> Some (Failed e, \<lparr>db = d, lastv = zeroVersionInfo, requests = [], stderr = []\<rparr>)
      | Inr l \<Rightarrow> syncLoop getVersions n \<lparr>db = d, lastv = l, requests = [], stderr = []\<rparr>)"

section \<open>The index update command\<close>

text \<open>
  The loop of \<open>updateCmd\<close> in indexcmd.go; \<open>indexCommand\<close> has the same loop, line for
  line. First the body of \<open>for i, v := range versions\<close> after the overlap check.
\<close>

definition upsertRow :: "tables \<Rightarrow> VersionInfo \<Rightarrow> error + tables" where
  "upsertRow tx v =
     (case selectPathID tx (Path v) of
        None \<Rightarrow>
          (case insertPath tx (Path v) of
             Inl e \<Rightarrow> Inl e
           | Inr (pathID, tx') \<Rightarrow>
               insertOrReplaceVersion tx' pathID (Version v) (Format (Timestamp v)))
      | Some pathID \<Rightarrow> insertOrReplaceVersion tx pathID (Version v) (Format (Timestamp v)))"

text \<open>
  The loop with its index \<open>i\<close>: the first record is skipped when it is the cursor and
  reported when it is not; every other record is written. The result holds the error, the
  working copy of the transaction and the lines for standard error.
\<close>

fun updateRows ::
  "VersionInfo \<Rightarrow> nat \<Rightarrow> VersionInfo list \<Rightarrow> tables \<Rightarrow> (VersionInfo \<times> VersionInfo) list
   \<Rightarrow> error option \<times> tables \<times> (VersionInfo \<times> VersionInfo) list" where
  "updateRows l i [] tx err = (None, tx, err)"
| "updateRows l i (v # vs) tx err =
     (if i = 0 \<and> \<not> IsZero (Timestamp l)
         \<and> Path v = Path l \<and> Version v = Version l \<and> Timestamp v = Timestamp l
      then updateRows l (Suc i) vs tx err
      else
        let err' = (if i = 0 \<and> \<not> IsZero (Timestamp l) then err @ [(l, v)] else err)
        in case upsertRow tx v of
             Inl e \<Rightarrow> (Some e, tx, err')
           | Inr tx' \<Rightarrow> updateRows l (Suc i) vs tx' err')"

definition updateBatch :: "sync_state \<Rightarrow> VersionInfo list \<Rightarrow> step" where
  "updateBatch s vs =
     (if length vs = 0
         \<or> (length vs = 1 \<and> Path (vs ! 0) = Path (lastv s) \<and> Version (vs ! 0) = Version (lastv s)
             \<and> Timestamp (vs ! 0) = Timestamp (lastv s))
      then Stop UpToDate s
      else
        case updateRows (lastv s) 0 vs (committed (db s)) (stderr s) of
          (Some e, tx, err) \<Rightarrow> Stop (Failed e) (s\<lparr>db := (db s)\<lparr>pending := Some tx\<rparr>, stderr := err\<rparr>)
        | (None, tx, err) \<Rightarrow>
            Continue (s\<lparr>db := (db s)\<lparr>committed := tx, pending := None\<rparr>, stderr := err,
                        lastv := last vs\<rparr>))"

definition updateIteration :: "feed \<Rightarrow> sync_state \<Rightarrow> step" where
  "updateIteration getVersions s =
     (let s1 = s\<lparr>requests := requests s @ [Timestamp (lastv s)]\<rparr>
      in case getVersions (Timestamp (lastv s)) 2000 of
           Inl e \<Rightarrow> Stop (Failed (GetVersions e)) s1
         | Inr vs \<Rightarrow> updateBatch s1 vs)"

fun updateLoop :: "feed \<Rightarrow> nat \<Rightarrow> sync_state \<Rightarrow> (outcome \<times> sync_state) option" where
  "updateLoop getVersions 0 s = None"
| "updateLoop getVersions (Suc n) s =
     (case updateIteration getVersions s of
        Stop out s' \<Rightarrow> Some (out, s')
      | Continue s' \<Rightarrow> updateLoop getVersions n s')"

definition updateCmd :: "feed \<Rightarrow> nat \<Rightarrow> database \<Rightarrow> (outcome \<times> sync_state) option" where
  "updateCmd getVersions n d =
     (case lastVersionInfo d of
        Inl e \<Rightarrow> Some (Failed e, \<lparr>db = d, lastv = zeroVersionInfo, requests = [], stderr = []\<rparr>)
      | Inr l \<Rightarrow> updateLoop getVersions n \<lparr>db = d, lastv = l, requests = [], stderr = []\<rparr>)"

section \<open>Auxiliary notions for the statements\<close>

text \<open>
  Writing a list of records, one after the other, the way the update command writes one
  record (\<open>upsertRow\<close>), stopping at the first error.
\<close>

fun upsertRows :: "tables \<Rightarrow> VersionInfo list \<Rightarrow> error option \<times> tables" where
  "upsertRows tx [] = (None, tx)"
| "upsertRows tx (v # vs) =
     (case upsertRow tx v of
        Inl e \<Rightarrow> (Some e, tx)
      | Inr tx' \<Rightarrow> upsertRows tx' vs)"

text \<open>
  The constraints of the schema: \<open>paths.id\<close> is a key, \<open>paths.path\<close> is unique,
  \<open>(path_id, version)\<close> is a key of \<open>versions\<close>, and every \<open>path_id\<close> is an id of
  \<open>paths\<close>.
\<close>

definition wfTables :: "tables \<Rightarrow> bool" where
  "wfTables t \<longleftrightarrow>
     distinct (map fst (paths t)) \<and> distinct (map snd (paths t))
     \<and> distinct (map fst (versions t))
     \<and> list_all (\<lambda>r. fst (fst r) \<in> fst ` set (paths t)) (versions t)"

text \<open>
  \<open>SELECT timestamp FROM versions WHERE path_id = (SELECT id FROM paths WHERE path = ?)
  AND version = ?\<close>: the timestamp texts stored for a path and a version.
\<close>

definition lookupVersion :: "tables \<Rightarrow> string \<Rightarrow> string \<Rightarrow> string list" where
  "lookupVersion t p ver =
     (case selectPathID t p of
        None \<Rightarrow> []
      | Some i \<Rightarrow> map snd (filter (\<lambda>r. fst r = (i, ver)) (versions t)))"

text \<open>
  The precondition on the feed: a response is ordered by non-decreasing timestamp and
  starts at or after \<open>since\<close>.
\<close>

definition feedOrdered :: "feed \<Rightarrow> bool" where
  "feedOrdered f \<longleftrightarrow>
     (\<forall>since limit vs. f since limit = Inr vs \<longrightarrow>
        sorted (map Timestamp vs) \<and> (\<forall>v \<in> set vs. since \<le> Timestamp v))"

text \<open>
  Modelled from the spec: the index server is not code of this repository. Section 4.1
  gives its contract: \<open>since\<close> is inclusive, except that for the zero \<open>since\<close> the
  response starts from the earliest record; \<open>limit\<close> bounds the number of records. The
  server is a log of records, and a request answers with the first \<open>limit\<close> records of
  the log at or after \<open>since\<close>.
\<close>

definition indexFeed :: "VersionInfo list \<Rightarrow> feed" where
  "indexFeed lg since limit =
     Inr (take limit (filter (\<lambda>v. IsZero since \<or> since \<le> Timestamp v) lg))"

section \<open>Example data\<close>

text \<open>Three records, at 2019-04-10T19:08:52.997264Z and one and two seconds later.\<close>

definition exA :: VersionInfo where
  "exA = \<lparr>Path = ''example.com/a'', Version = ''v1.0.0'', Timestamp = 63690520132997264000\<rparr>"

definition exB :: VersionInfo where
  "exB = \<lparr>Path = ''example.com/a'', Version = ''v1.1.0'', Timestamp = 63690520133997264000\<rparr>"

definition exC :: VersionInfo where
  "exC = \<lparr>Path = ''example.com/c'', Version = ''v0.1.0'', Timestamp = 63690520134997264000\<rparr>"

text \<open>The record \<open>exA\<close> emitted again with a later timestamp.\<close>

definition exA' :: VersionInfo where
  "exA' = \<lparr>Path = ''example.com/a'', Version = ''v1.0.0'', Timestamp = 63690520135000000000\<rparr>"

text \<open>A store that holds \<open>exA\<close>, and a run whose cursor is \<open>exA\<close>.\<close>

definition exTables :: tables where
  "exTables = \<lparr>paths = [(1, ''example.com/a'')],
                versions = [((1, ''v1.0.0''), ''2019-04-10T19:08:52.997264Z'')]\<rparr>"

definition exDB :: database where
  "exDB = \<lparr>committed = exTables, pending = None\<rparr>"

definition exState :: sync_state where
  "exState = \<lparr>db = exDB, lastv = exA, requests = [], stderr = []\<rparr>"

definition emptyDB :: database where
  "emptyDB = \<lparr>committed = \<lparr>paths = [], versions = []\<rparr>, pending = None\<rparr>"

text \<open>
  A feed that answers the cursor \<open>exA\<close> with \<open>exA, exB\<close> and every other request with
  \<open>exC, exA\<close>.
\<close>

definition exFeed4 :: feed where
  "exFeed4 since limit = (if since = Timestamp exA then Inr [exA, exB] else Inr [exC, exA])"

section \<open>Progress report\<close>

text \<open>
  \<open>printProgress\<close> (and the same lines at the head of the update command's loop). The
  report reads the wall clock and converts durations to hours through \<open>float64\<close>; the
  model takes the results of that as arguments: \<open>duration\<close> is \<open>target.Sub(start)\<close> in
  nanoseconds, \<open>coveredHours\<close> is \<open>int64(covered.Hours())\<close> and \<open>openHours\<close> is
  \<open>int64(target.Sub(last.Timestamp).Hours())\<close>. All three are \<open>int64\<close>; the product
  wraps around and the division truncates towards zero, as in Go. The report is \<open>None\<close>
  when nothing is printed; \<open>remaining\<close> is the value of \<open>expectedRemainingRuntime\<close>
  behind the line "Remaining", \<open>None\<close> when that line is left out.
\<close>

type_synonym int64 = "64 word"

record progress =
  hoursDone :: int64
  hoursOpen :: int64
  remaining :: "int64 option"

definition printProgress :: "VersionInfo \<Rightarrow> int64 \<Rightarrow> int64 \<Rightarrow> int64 \<Rightarrow> progress option" where
  "printProgress l duration coveredHours openHours =
     (if \<not> IsZero (Timestamp l)
      then Some \<lparr>hoursDone = coveredHours, hoursOpen = openHours,
                  remaining =
                    (if 0 <s coveredHours
                     then Some (word_of_int (sint (openHours * duration) sdiv sint coveredHours))
                     else None)\<rparr>
      else None)"

text \<open>The months with the first day of each (from 0) and of the next, in a common year.\<close>

definition monthTable :: "(int \<times> int \<times> int) set" where
  "monthTable = {(1, 0, 31), (2, 31, 59), (3, 59, 90), (4, 90, 120), (5, 120, 151),
     (6, 151, 181), (7, 181, 212), (8, 212, 243), (9, 243, 273), (10, 273, 304),
     (11, 304, 334), (12, 334, 365)}"

declare digitsLen.simps [simp del]

lemmas ex_defs =
  exA_def exB_def exC_def exA'_def exTables_def exDB_def exState_def emptyDB_def

lemmas time_defs =
  IsZero_def Format_def absDate_def monthDay_def isLeap_def daysBefore_def appendInt_def
  appendNano_def trimZeros_def digit_def Parse_def parseUint_def atoi_def isDigit_def
  slice_def daysIn_def parseZone_def parseNanoseconds_def parseFraction_def Date_def
  daysSinceEpoch_def

lemmas store_defs =
  selectPathID_def insertPath_def insertVersion_def insertOrReplaceVersion_def
  insertRow_def upsertRow_def insertVersions_def joinedRows_def lastVersionInfo_def
  zeroVersionInfo_def

lemmas engine_defs =
  versionsToInsert_def syncBatch_def syncIteration_def SynchronizeDatabase_def
  updateBatch_def updateIteration_def updateCmd_def

section \<open>The merge step\<close>

lemma updateRows_Suc:
  "updateRows l (Suc i) vs tx err = (case upsertRows tx vs of (e, tx') \<Rightarrow> (e, tx', err))"
  by (induction vs arbitrary: tx i) (auto split: sum.splits)

text \<open>
  C2. The cursor is not none and the first fetched record is the cursor. In
  \<open>SynchronizeDatabase\<close> the records to insert are \<open>fetched[1:]\<close>: the loop ends when
  that is empty and else hands exactly that list to \<open>insertVersions\<close>. In the update
  command the loop over the fetched records skips the first one and writes the others, in
  order.
\<close>

theorem C2_overlap_dropped:
  assumes "\<not> IsZero (Timestamp (lastv s))" and "vs \<noteq> []"
    and "Path (hd vs) = Path (lastv s)" and "Version (hd vs) = Version (lastv s)"
    and "Timestamp (hd vs) = Timestamp (lastv s)"
  shows "versionsToInsert (lastv s) vs = Some ([], tl vs)
       \<and> syncBatch s vs =
            (if tl vs = [] then Stop UpToDate s
             else case insertVersions (db s) (tl vs) of
                    (Some e, d) \<Rightarrow> Stop (Failed (InsertBatch e)) (s\<lparr>db := d\<rparr>)
                  | (None, d) \<Rightarrow> Continue (s\<lparr>db := d, lastv := last (tl vs)\<rparr>))
       \<and> updateRows (lastv s) 0 vs tx err =
            (case upsertRows tx (tl vs) of (e, tx') \<Rightarrow> (e, tx', err))"
proof -
  from assms obtain v ws where vs: "vs = v # ws" by (cases vs) auto
  with assms have m: "Path v = Path (lastv s)" "Version v = Version (lastv s)"
    "Timestamp v = Timestamp (lastv s)"
    by simp_all
  have a: "versionsToInsert (lastv s) vs = Some ([], tl vs)"
    using assms(1) m by (simp add: versionsToInsert_def vs drop_Suc)
  have b: "updateRows (lastv s) 0 vs tx err =
             (case upsertRows tx (tl vs) of (e, tx') \<Rightarrow> (e, tx', err))"
    using assms(1) m by (simp add: vs updateRows_Suc)
  show ?thesis
    using a b by (auto simp: syncBatch_def split: prod.splits option.splits)
qed

theorem C2_overlap_dropped_witness:
  "\<not> IsZero (Timestamp (lastv exState)) \<and> [exA, exB, exC] \<noteq> []
   \<and> Path (hd [exA, exB, exC]) = Path (lastv exState)
   \<and> Version (hd [exA, exB, exC]) = Version (lastv exState)
   \<and> Timestamp (hd [exA, exB, exC]) = Timestamp (lastv exState)
   \<and> versionsToInsert (lastv exState) [exA, exB, exC] = Some ([], [exB, exC])
   \<and> updateRows (lastv exState) 0 [exA, exB, exC] exTables [] =
        (case upsertRows exTables [exB, exC] of (e, tx') \<Rightarrow> (e, tx', []))"
proof -
  have h1: "\<not> IsZero (Timestamp (lastv exState))"
    by (simp add: ex_defs IsZero_def)
  have h2: "[exA, exB, exC] \<noteq> []" by simp
  have h3: "Path (hd [exA, exB, exC]) = Path (lastv exState)"
    and h4: "Version (hd [exA, exB, exC]) = Version (lastv exState)"
    and h5: "Timestamp (hd [exA, exB, exC]) = Timestamp (lastv exState)"
    by (simp_all add: ex_defs)
  show ?thesis
    using h1 h3 h4 h5 C2_overlap_dropped [OF h1 h2 h3 h4 h5, of exTables "[]"] by simp
qed

section \<open>Termination on an empty fetch\<close>

text \<open>
  C1. With a cursor that is not none, a fetch that returns no record makes
  \<open>SynchronizeDatabase\<close> panic (the \<open>else\<close> branch of the overlap check reads
  \<open>versions[0]\<close> for its message), where the update command prints "Index is up-to-date"
  and returns \<open>nil\<close>. Here the store holds \<open>exA\<close> and the feed returns nothing.
\<close>

theorem C1_empty_fetch_panics:
  "SynchronizeDatabase (\<lambda>since limit. Inr []) 1 exDB =
     Some (Panicked, exState\<lparr>requests := [Timestamp exA]\<rparr>)
   \<and> updateCmd (\<lambda>since limit. Inr []) 1 exDB =
     Some (UpToDate, exState\<lparr>requests := [Timestamp exA]\<rparr>)"
  by code_simp

section \<open>The cursor within a run\<close>

lemma versionsToInsert_subset:
  "versionsToInsert l vs = Some (bug, ins) \<Longrightarrow> set ins \<subseteq> set vs"
  by (auto simp: versionsToInsert_def split: if_splits dest: in_set_dropD)

lemma syncBatch_Continue:
  assumes "syncBatch s vs = Continue s'"
  shows "\<exists>bug ins. versionsToInsert (lastv s) vs = Some (bug, ins) \<and> ins \<noteq> []
           \<and> fst (insertVersions (db s) ins) = None
           \<and> s' = s\<lparr>stderr := stderr s @ bug, db := snd (insertVersions (db s) ins),
                     lastv := last ins\<rparr>"
  using assms
  by (auto simp: syncBatch_def Let_def split: option.splits prod.splits if_splits)

lemma syncBatch_Stop_requests:
  "syncBatch s vs = Stop out t \<Longrightarrow> requests t = requests s \<and> lastv t = lastv s"
  by (auto simp: syncBatch_def Let_def split: option.splits prod.splits if_splits)

lemma updateBatch_Continue:
  assumes "updateBatch s vs = Continue s'"
  shows "vs \<noteq> [] \<and> lastv s' = last vs \<and> requests s' = requests s"
  using assms
  by (auto simp: updateBatch_def split: option.splits prod.splits if_splits)

lemma updateBatch_Stop_requests:
  "updateBatch s vs = Stop out t \<Longrightarrow> requests t = requests s \<and> lastv t = lastv s"
  by (auto simp: updateBatch_def split: option.splits prod.splits if_splits)

lemma syncIteration_mono:
  assumes "feedOrdered f" and "syncIteration f s = Continue s'"
  shows "Timestamp (lastv s) \<le> Timestamp (lastv s')
       \<and> requests s' = requests s @ [Timestamp (lastv s)]"
proof -
  from assms(2) obtain vs where f: "f (Timestamp (lastv s)) 2000 = Inr vs"
    and b: "syncBatch (s\<lparr>requests := requests s @ [Timestamp (lastv s)]\<rparr>) vs = Continue s'"
    by (auto simp: syncIteration_def Let_def split: sum.splits)
  from syncBatch_Continue [OF b] obtain bug ins where
    v: "versionsToInsert (lastv s) vs = Some (bug, ins)" and n: "ins \<noteq> []"
    and l: "lastv s' = last ins" and r: "requests s' = requests s @ [Timestamp (lastv s)]"
    by auto
  from n have "last ins \<in> set ins" by simp
  with versionsToInsert_subset [OF v] have "last ins \<in> set vs" by blast
  with assms(1) f have "Timestamp (lastv s) \<le> Timestamp (last ins)"
    unfolding feedOrdered_def by blast
  with l r show ?thesis by simp
qed

lemma updateIteration_mono:
  assumes "feedOrdered f" and "updateIteration f s = Continue s'"
  shows "Timestamp (lastv s) \<le> Timestamp (lastv s')
       \<and> requests s' = requests s @ [Timestamp (lastv s)]"
proof -
  from assms(2) obtain vs where f: "f (Timestamp (lastv s)) 2000 = Inr vs"
    and b: "updateBatch (s\<lparr>requests := requests s @ [Timestamp (lastv s)]\<rparr>) vs = Continue s'"
    by (auto simp: updateIteration_def Let_def split: sum.splits)
  from updateBatch_Continue [OF b] have n: "vs \<noteq> []" and l: "lastv s' = last vs"
    and r: "requests s' = requests s @ [Timestamp (lastv s)]"
    by auto
  from n have "last vs \<in> set vs" by simp
  with assms(1) f have "Timestamp (lastv s) \<le> Timestamp (last vs)"
    unfolding feedOrdered_def by blast
  with l r show ?thesis by simp
qed

lemma syncIteration_Stop_requests:
  "syncIteration f s = Stop out t \<Longrightarrow> requests t = requests s @ [Timestamp (lastv s)]"
  by (auto simp: syncIteration_def Let_def split: sum.splits dest: syncBatch_Stop_requests)

lemma updateIteration_Stop_requests:
  "updateIteration f s = Stop out t \<Longrightarrow> requests t = requests s @ [Timestamp (lastv s)]"
  by (auto simp: updateIteration_def Let_def split: sum.splits dest: updateBatch_Stop_requests)

lemma syncLoop_requests_sorted:
  assumes "feedOrdered f"
  shows "sorted (requests s) \<Longrightarrow> \<forall>r \<in> set (requests s). r \<le> Timestamp (lastv s)
     \<Longrightarrow> syncLoop f n s = Some (out, t) \<Longrightarrow> sorted (requests t)"
proof (induction n arbitrary: s)
  case 0
  then show ?case by simp
next
  case (Suc n)
  show ?case
  proof (cases "syncIteration f s")
    case (Continue s')
    from syncIteration_mono [OF assms Continue]
    have m: "Timestamp (lastv s) \<le> Timestamp (lastv s')"
      and r: "requests s' = requests s @ [Timestamp (lastv s)]" by auto
    have "sorted (requests s')"
      using Suc.prems(1,2) r by (simp add: sorted_append)
    moreover have "\<forall>r \<in> set (requests s'). r \<le> Timestamp (lastv s')"
      using Suc.prems(2) m r by fastforce
    moreover have "syncLoop f n s' = Some (out, t)"
      using Suc.prems(3) Continue by simp
    ultimately show ?thesis by (rule Suc.IH)
  next
    case (Stop o' t')
    with Suc.prems(3) have "t = t'" by simp
    with syncIteration_Stop_requests [OF Stop] Suc.prems(1,2) show ?thesis
      by (simp add: sorted_append)
  qed
qed

lemma updateLoop_requests_sorted:
  assumes "feedOrdered f"
  shows "sorted (requests s) \<Longrightarrow> \<forall>r \<in> set (requests s). r \<le> Timestamp (lastv s)
     \<Longrightarrow> updateLoop f n s = Some (out, t) \<Longrightarrow> sorted (requests t)"
proof (induction n arbitrary: s)
  case 0
  then show ?case by simp
next
  case (Suc n)
  show ?case
  proof (cases "updateIteration f s")
    case (Continue s')
    from updateIteration_mono [OF assms Continue]
    have m: "Timestamp (lastv s) \<le> Timestamp (lastv s')"
      and r: "requests s' = requests s @ [Timestamp (lastv s)]" by auto
    have "sorted (requests s')"
      using Suc.prems(1,2) r by (simp add: sorted_append)
    moreover have "\<forall>r \<in> set (requests s'). r \<le> Timestamp (lastv s')"
      using Suc.prems(2) m r by fastforce
    moreover have "updateLoop f n s' = Some (out, t)"
      using Suc.prems(3) Continue by simp
    ultimately show ?thesis by (rule Suc.IH)
  next
    case (Stop o' t')
    with Suc.prems(3) have "t = t'" by simp
    with updateIteration_Stop_requests [OF Stop] Suc.prems(1,2) show ?thesis
      by (simp add: sorted_append)
  qed
qed

lemma feedOrdered_indexFeed:
  assumes "sorted (map Timestamp lg)" and "\<forall>v \<in> set lg. 0 \<le> Timestamp v"
  shows "feedOrdered (indexFeed lg)"
  unfolding feedOrdered_def
proof (intro allI impI conjI ballI)
  fix since limit vs v
  assume f: "indexFeed lg since limit = Inr vs"
  then have vs: "vs = take limit (filter (\<lambda>v. IsZero since \<or> since \<le> Timestamp v) lg)"
    by (simp add: indexFeed_def)
  from assms(1) have "sorted_wrt (\<lambda>x y. Timestamp x \<le> Timestamp y) lg"
    by (simp only: sorted_map)
  then have "sorted_wrt (\<lambda>x y. Timestamp x \<le> Timestamp y) vs"
    unfolding vs by (intro sorted_wrt_take sorted_wrt_filter)
  then show "sorted (map Timestamp vs)"
    by (simp only: sorted_map)
next
  fix since limit vs v
  assume f: "indexFeed lg since limit = Inr vs" and v: "v \<in> set vs"
  then have "v \<in> set (take limit (filter (\<lambda>v. IsZero since \<or> since \<le> Timestamp v) lg))"
    by (simp add: indexFeed_def)
  then have "v \<in> set (filter (\<lambda>v. IsZero since \<or> since \<le> Timestamp v) lg)"
    by (rule in_set_takeD)
  then have "v \<in> set lg" and "IsZero since \<or> since \<le> Timestamp v"
    by simp_all
  with assms(2) show "since \<le> Timestamp v"
    by (auto simp: IsZero_def)
qed
text \<open>
  C6. After a batch is committed the cursor is the last record of the list that was
  inserted (\<open>SynchronizeDatabase\<close>) or of the fetched list (the update command); no
  query of the store is involved. When every response of the feed is ordered and starts
  at or after \<open>since\<close>, an iteration never moves the cursor's timestamp back, and the
  \<open>since\<close> values of a run, which are the cursor's timestamps at its iterations, are in
  non-decreasing order.
\<close>

theorem C6_cursor_advances:
  assumes "feedOrdered f"
  shows "(syncBatch s vs = Continue s' \<longrightarrow>
            (\<exists>bug ins. versionsToInsert (lastv s) vs = Some (bug, ins) \<and> ins \<noteq> []
               \<and> fst (insertVersions (db s) ins) = None \<and> lastv s' = last ins))
       \<and> (updateBatch s vs = Continue s' \<longrightarrow> vs \<noteq> [] \<and> lastv s' = last vs)
       \<and> (syncIteration f s = Continue s' \<longrightarrow> Timestamp (lastv s) \<le> Timestamp (lastv s'))
       \<and> (updateIteration f s = Continue s' \<longrightarrow> Timestamp (lastv s) \<le> Timestamp (lastv s'))
       \<and> (syncLoop f n \<lparr>db = d, lastv = l, requests = [], stderr = []\<rparr> = Some (out, t)
            \<longrightarrow> sorted (requests t))
       \<and> (updateLoop f n \<lparr>db = d, lastv = l, requests = [], stderr = []\<rparr> = Some (out, t)
            \<longrightarrow> sorted (requests t))"
proof (intro conjI impI)
  assume "syncBatch s vs = Continue s'"
  from syncBatch_Continue [OF this]
  show "\<exists>bug ins. versionsToInsert (lastv s) vs = Some (bug, ins) \<and> ins \<noteq> []
               \<and> fst (insertVersions (db s) ins) = None \<and> lastv s' = last ins"
    by auto
next
  assume a: "updateBatch s vs = Continue s'"
  from updateBatch_Continue [OF a] show "vs \<noteq> []" by simp
  from updateBatch_Continue [OF a] show "lastv s' = last vs" by simp
next
  assume "syncIteration f s = Continue s'"
  from syncIteration_mono [OF assms this]
  show "Timestamp (lastv s) \<le> Timestamp (lastv s')" by simp
next
  assume "updateIteration f s = Continue s'"
  from updateIteration_mono [OF assms this]
  show "Timestamp (lastv s) \<le> Timestamp (lastv s')" by simp
next
  assume "syncLoop f n \<lparr>db = d, lastv = l, requests = [], stderr = []\<rparr> = Some (out, t)"
  from syncLoop_requests_sorted [OF assms _ _ this] show "sorted (requests t)" by simp
next
  assume "updateLoop f n \<lparr>db = d, lastv = l, requests = [], stderr = []\<rparr> = Some (out, t)"
  from updateLoop_requests_sorted [OF assms _ _ this] show "sorted (requests t)" by simp
qed


theorem C6_cursor_advances_witness:
  "feedOrdered (indexFeed [exA, exB, exC])
   \<and> (\<exists>s'. syncIteration (indexFeed [exA, exB, exC]) exState = Continue s'
          \<and> lastv s' = exC
          \<and> Timestamp (lastv exState) \<le> Timestamp (lastv s'))
   \<and> (\<exists>t. syncLoop (indexFeed [exA, exB, exC]) 3
               \<lparr>db = emptyDB, lastv = zeroVersionInfo, requests = [], stderr = []\<rparr>
             = Some (UpToDate, t)
          \<and> requests t = [0, Timestamp exC] \<and> sorted (requests t))"
proof -
  have o: "feedOrdered (indexFeed [exA, exB, exC])"
    by (rule feedOrdered_indexFeed) (simp_all add: ex_defs)
  have "(case syncIteration (indexFeed [exA, exB, exC]) exState of
           Continue s' \<Rightarrow> lastv s' = exC | Stop out s' \<Rightarrow> False)"
    by code_simp
  then obtain s' where
    i: "syncIteration (indexFeed [exA, exB, exC]) exState = Continue s'" and l: "lastv s' = exC"
    by (auto split: step.splits)
  have "(case syncLoop (indexFeed [exA, exB, exC]) 3
               \<lparr>db = emptyDB, lastv = zeroVersionInfo, requests = [], stderr = []\<rparr> of
           Some (out, t) \<Rightarrow> out = UpToDate \<and> requests t = [0, Timestamp exC]
         | None \<Rightarrow> False)"
    by code_simp
  then obtain t where
    r: "syncLoop (indexFeed [exA, exB, exC]) 3
          \<lparr>db = emptyDB, lastv = zeroVersionInfo, requests = [], stderr = []\<rparr>
        = Some (UpToDate, t)" and q: "requests t = [0, Timestamp exC]"
    by (auto split: option.splits)
  from C6_cursor_advances [OF o, of exState "[]" s' "3" emptyDB zeroVersionInfo UpToDate t] i r
  have "Timestamp (lastv exState) \<le> Timestamp (lastv s')" and "sorted (requests t)"
    by blast+
  with o i l r q show ?thesis by blast
qed

section \<open>Failure of a batch\<close>

lemma insertRow_extends:
  assumes "insertRow tx v = Inr tx'"
  shows "\<exists>ps rs. paths tx' = paths tx @ ps \<and> versions tx' = versions tx @ rs"
  using assms
  by (auto simp: insertRow_def insertPath_def insertVersion_def Let_def
      split: option.splits sum.splits if_splits)

lemma insertRows_extends:
  "insertRows tx vs = (e, tx') \<Longrightarrow>
     \<exists>ps rs. paths tx' = paths tx @ ps \<and> versions tx' = versions tx @ rs"
proof (induction vs arbitrary: tx)
  case Nil
  then show ?case by simp
next
  case (Cons v vs)
  show ?case
  proof (cases "insertRow tx v")
    case (Inl a)
    with Cons.prems show ?thesis by simp
  next
    case (Inr tx1)
    with Cons.prems have "insertRows tx1 vs = (e, tx')" by simp
    from Cons.IH [OF this] insertRow_extends [OF Inr] show ?thesis by auto
  qed
qed

lemma insertVersions_failed:
  "insertVersions d vs = (Some e, d') \<Longrightarrow>
     committed d' = committed d \<and> pending d' = Some (snd (insertRows (committed d) vs))"
  by (auto simp: insertVersions_def split: prod.splits option.splits)

lemma insertVersions_extends:
  assumes "insertVersions d vs = (e, d')"
  shows "\<exists>ps rs. paths (committed d') = paths (committed d) @ ps
           \<and> versions (committed d') = versions (committed d) @ rs"
proof (cases "insertRows (committed d) vs")
  case (Pair e1 tx)
  from insertRows_extends [OF Pair] assms Pair show ?thesis
    by (cases e1) (auto simp: insertVersions_def)
qed

lemma syncBatch_failed:
  assumes "syncBatch s vs = Stop (Failed e) t"
  shows "committed (db t) = committed (db s)"
  using assms
  by (auto simp: syncBatch_def Let_def insertVersions_def
      split: option.splits prod.splits if_splits)

lemma syncBatch_extends:
  assumes "syncBatch s vs = Continue t \<or> syncBatch s vs = Stop out t"
  shows "\<exists>ps rs. paths (committed (db t)) = paths (committed (db s)) @ ps
           \<and> versions (committed (db t)) = versions (committed (db s)) @ rs"
proof (cases "versionsToInsert (lastv s) vs")
  case None
  with assms show ?thesis by (auto simp: syncBatch_def)
next
  case (Some a)
  obtain bug ins where a: "a = (bug, ins)" by (cases a)
  show ?thesis
  proof (cases "length ins = 0")
    case True
    with assms Some a show ?thesis by (auto simp: syncBatch_def)
  next
    case False
    obtain e d where i: "insertVersions (db s) ins = (e, d)"
      by (cases "insertVersions (db s) ins")
    from insertVersions_extends [OF i] assms Some a False i show ?thesis
      by (cases e) (auto simp: syncBatch_def Let_def)
  qed
qed

lemma syncIteration_extends:
  assumes "syncIteration f s = Continue t \<or> syncIteration f s = Stop out t"
  shows "\<exists>ps rs. paths (committed (db t)) = paths (committed (db s)) @ ps
           \<and> versions (committed (db t)) = versions (committed (db s)) @ rs"
proof (cases "f (Timestamp (lastv s)) 2000")
  case (Inl a)
  with assms show ?thesis by (auto simp: syncIteration_def Let_def)
next
  case (Inr vs)
  with assms have
    "syncBatch (s\<lparr>requests := requests s @ [Timestamp (lastv s)]\<rparr>) vs = Continue t
     \<or> syncBatch (s\<lparr>requests := requests s @ [Timestamp (lastv s)]\<rparr>) vs = Stop out t"
    by (simp add: syncIteration_def Let_def)
  from syncBatch_extends [OF this] show ?thesis by simp
qed

lemma syncLoop_extends:
  "syncLoop f n s = Some (out, t) \<Longrightarrow>
     \<exists>ps rs. paths (committed (db t)) = paths (committed (db s)) @ ps
           \<and> versions (committed (db t)) = versions (committed (db s)) @ rs"
proof (induction n arbitrary: s)
  case 0
  then show ?case by simp
next
  case (Suc n)
  show ?case
  proof (cases "syncIteration f s")
    case (Continue s')
    with Suc.prems have "syncLoop f n s' = Some (out, t)" by simp
    from Suc.IH [OF this] syncIteration_extends [of f s s'] Continue show ?thesis
      by auto
  next
    case (Stop o' t')
    with Suc.prems have "o' = out" "t' = t" by simp_all
    with syncIteration_extends [of f s t out] Stop show ?thesis by auto
  qed
qed

text \<open>
  C4. When the write of a record fails, \<open>insertVersions\<close> returns with the transaction
  left open: the committed tables are those from before the batch, so no record of the
  batch has been added to the store (rows that were there before stay, among them the row
  that made a plain \<open>INSERT\<close> fail). The same holds for the iteration that fails. Over a
  whole run, whatever its outcome, the committed tables at the end are those at the start
  followed by more rows: what an earlier batch committed is still there.
\<close>

theorem C4_batch_all_or_nothing:
  "(insertVersions d vs = (Some e, d') \<longrightarrow> committed d' = committed d)
   \<and> (syncBatch s ws = Stop (Failed e') s' \<longrightarrow> committed (db s') = committed (db s))
   \<and> (syncLoop f n s0 = Some (out, t) \<longrightarrow>
        (\<exists>ps rs. paths (committed (db t)) = paths (committed (db s0)) @ ps
           \<and> versions (committed (db t)) = versions (committed (db s0)) @ rs))"
  using insertVersions_failed [of d vs e d'] syncBatch_failed [of s ws e' s']
    syncLoop_extends [of f n s0 out t]
  by blast

theorem C4_batch_all_or_nothing_witness:
  "insertVersions exDB [exB, exA] =
     (Some InsertVersion,
      exDB\<lparr>pending := Some \<lparr>paths = [(1, ''example.com/a'')],
                versions = [((1, ''v1.0.0''), ''2019-04-10T19:08:52.997264Z''),
                            ((1, ''v1.1.0''), ''2019-04-10T19:08:53.997264Z'')]\<rparr>\<rparr>)
   \<and> committed (exDB\<lparr>pending := Some \<lparr>paths = [(1, ''example.com/a'')],
                versions = [((1, ''v1.0.0''), ''2019-04-10T19:08:52.997264Z''),
                            ((1, ''v1.1.0''), ''2019-04-10T19:08:53.997264Z'')]\<rparr>\<rparr>)
       = committed exDB
   \<and> (\<exists>t. syncBatch (exState\<lparr>lastv := exB\<rparr>) [exC, exA]
             = Stop (Failed (InsertBatch InsertVersion)) t
          \<and> committed (db t) = committed (db (exState\<lparr>lastv := exB\<rparr>)))
   \<and> (\<exists>t. syncLoop exFeed4 2 exState = Some (Failed (InsertBatch InsertVersion), t)
          \<and> versions (committed (db t)) =
                [((1, ''v1.0.0''), ''2019-04-10T19:08:52.997264Z''),
                 ((1, ''v1.1.0''), ''2019-04-10T19:08:53.997264Z'')]
          \<and> (\<exists>ps rs. paths (committed (db t)) = paths (committed (db exState)) @ ps
                 \<and> versions (committed (db t)) = versions (committed (db exState)) @ rs))"
proof -
  have a: "insertVersions exDB [exB, exA] =
     (Some InsertVersion,
      exDB\<lparr>pending := Some \<lparr>paths = [(1, ''example.com/a'')],
                versions = [((1, ''v1.0.0''), ''2019-04-10T19:08:52.997264Z''),
                            ((1, ''v1.1.0''), ''2019-04-10T19:08:53.997264Z'')]\<rparr>\<rparr>)"
    by code_simp
  have "(case syncLoop exFeed4 2 exState of
           Some (out, t) \<Rightarrow> out = Failed (InsertBatch InsertVersion)
             \<and> versions (committed (db t)) =
                [((1, ''v1.0.0''), ''2019-04-10T19:08:52.997264Z''),
                 ((1, ''v1.1.0''), ''2019-04-10T19:08:53.997264Z'')]
         | None \<Rightarrow> False)"
    by code_simp
  then obtain t where
    r: "syncLoop exFeed4 2 exState = Some (Failed (InsertBatch InsertVersion), t)"
    and v: "versions (committed (db t)) =
                [((1, ''v1.0.0''), ''2019-04-10T19:08:52.997264Z''),
                 ((1, ''v1.1.0''), ''2019-04-10T19:08:53.997264Z'')]"
    by (auto split: option.splits)
  have "(case syncBatch (exState\<lparr>lastv := exB\<rparr>) [exC, exA] of
           Stop out u \<Rightarrow> out = Failed (InsertBatch InsertVersion) | Continue u \<Rightarrow> False)"
    by code_simp
  then obtain u where
    b: "syncBatch (exState\<lparr>lastv := exB\<rparr>) [exC, exA]
          = Stop (Failed (InsertBatch InsertVersion)) u"
    by (auto split: step.splits)
  from C4_batch_all_or_nothing [of exDB "[exB, exA]" InsertVersion _
      "exState\<lparr>lastv := exB\<rparr>" "[exC, exA]" "InsertBatch InsertVersion" u
      exFeed4 2 exState "Failed (InsertBatch InsertVersion)" t] a b r v
  show ?thesis by blast
qed

section \<open>Writing rows\<close>

lemma selectPathID_Some:
  "selectPathID tx p = Some i \<Longrightarrow> (i, p) \<in> set (paths tx)"
  by (auto simp: selectPathID_def dest!: map_of_SomeD)

lemma selectPathID_None:
  "selectPathID tx p = None \<longleftrightarrow> p \<notin> snd ` set (paths tx)"
  by (force simp: selectPathID_def map_of_eq_None_iff image_iff)

lemma selectPathID_append_same:
  "selectPathID tx p = None \<Longrightarrow>
     selectPathID (tx\<lparr>paths := paths tx @ [(i, p)]\<rparr>) p = Some i"
  by (simp add: selectPathID_def map_add_def)

lemma selectPathID_append_other:
  "q \<noteq> p \<Longrightarrow> selectPathID (tx\<lparr>paths := paths tx @ [(i, q)]\<rparr>) p = selectPathID tx p"
  by (simp add: selectPathID_def map_add_def split: option.splits)

lemma selectPathID_append_Some:
  "selectPathID tx p = Some j \<Longrightarrow>
     selectPathID (tx\<lparr>paths := paths tx @ [(i, q)]\<rparr>) p = Some j"
  by (simp add: selectPathID_def map_add_def)

lemma selectPathID_versions_upd [simp]:
  "selectPathID (tx\<lparr>versions := rs\<rparr>) p = selectPathID tx p"
  by (simp add: selectPathID_def)

lemma new_id_fresh:
  assumes "paths tx \<noteq> []"
  shows "Max (fst ` set (paths tx)) + 1 \<notin> fst ` set (paths tx)"
proof
  assume "Max (fst ` set (paths tx)) + 1 \<in> fst ` set (paths tx)"
  then have "Max (fst ` set (paths tx)) + 1 \<le> Max (fst ` set (paths tx))"
    by (intro Max_ge) auto
  then show False by simp
qed

text \<open>What \<open>upsertRow\<close> does, with the path id it used.\<close>

lemma upsertRow_cases:
  obtains i where "selectPathID tx (Path v) = Some i"
      and "upsertRow tx v = Inr (tx\<lparr>versions :=
              filter (\<lambda>r. fst r \<noteq> (i, Version v)) (versions tx)
              @ [((i, Version v), Format (Timestamp v))]\<rparr>)"
    | i where "selectPathID tx (Path v) = None" and "i \<notin> fst ` set (paths tx)"
      and "upsertRow tx v = Inr (tx\<lparr>paths := paths tx @ [(i, Path v)], versions :=
              filter (\<lambda>r. fst r \<noteq> (i, Version v)) (versions tx)
              @ [((i, Version v), Format (Timestamp v))]\<rparr>)"
proof (cases "selectPathID tx (Path v)")
  case None
  then have n: "Path v \<notin> snd ` set (paths tx)" by (simp add: selectPathID_None)
  define i where "i = (if paths tx = [] then 1 else Max (fst ` set (paths tx)) + 1)"
  have f: "i \<notin> fst ` set (paths tx)"
    using new_id_fresh [of tx] by (auto simp: i_def)
  have "upsertRow tx v = Inr (tx\<lparr>paths := paths tx @ [(i, Path v)], versions :=
              filter (\<lambda>r. fst r \<noteq> (i, Version v)) (versions tx)
              @ [((i, Version v), Format (Timestamp v))]\<rparr>)"
    using None n
    by (simp add: upsertRow_def insertPath_def insertOrReplaceVersion_def Let_def i_def)
  with None f show ?thesis by (rule that(2))
next
  case (Some i)
  then have "i \<in> fst ` set (paths tx)"
    by (force dest: selectPathID_Some)
  then have "upsertRow tx v = Inr (tx\<lparr>versions :=
              filter (\<lambda>r. fst r \<noteq> (i, Version v)) (versions tx)
              @ [((i, Version v), Format (Timestamp v))]\<rparr>)"
    using Some by (simp add: upsertRow_def insertOrReplaceVersion_def)
  with Some show ?thesis by (rule that(1))
qed

lemma upsertRow_lookup_same:
  assumes "upsertRow tx v = Inr tx'"
  shows "lookupVersion tx' (Path v) (Version v) = [Format (Timestamp v)]"
proof (cases rule: upsertRow_cases [of tx v])
  case (1 i)
  with assms show ?thesis
    by (auto simp: lookupVersion_def filter_empty_conv)
next
  case (2 i)
  with assms show ?thesis
    by (auto simp: lookupVersion_def filter_empty_conv selectPathID_def map_add_def
        split: option.splits)
qed

lemma upsertRow_distinct_ids:
  assumes "distinct (map fst (paths tx))" and "upsertRow tx v = Inr tx'"
  shows "distinct (map fst (paths tx'))"
proof (cases rule: upsertRow_cases [of tx v])
  case (1 i)
  with assms show ?thesis by auto
next
  case (2 i)
  with assms show ?thesis by auto
qed

lemma distinct_ids_same_path:
  "distinct (map fst ps) \<Longrightarrow> (i, p) \<in> set ps \<Longrightarrow> (i, q) \<in> set ps \<Longrightarrow> p = q"
  by (meson eq_key_imp_eq_value)

lemma upsertRow_lookup_other:
  assumes d: "distinct (map fst (paths tx))" and u: "upsertRow tx w = Inr tx'"
    and ne: "Path w \<noteq> Path v \<or> Version w \<noteq> Version v"
    and l: "lookupVersion tx (Path v) (Version v) \<noteq> []"
  shows "lookupVersion tx' (Path v) (Version v) = lookupVersion tx (Path v) (Version v)"
proof -
  from l obtain j where j: "selectPathID tx (Path v) = Some j"
    by (auto simp: lookupVersion_def split: option.splits)
  then have jp: "(j, Path v) \<in> set (paths tx)" by (rule selectPathID_Some)
  show ?thesis
  proof (cases rule: upsertRow_cases [of tx w])
    case (1 i)
    then have "(i, Path w) \<in> set (paths tx)" by (auto dest: selectPathID_Some)
    with d jp have "i = j \<Longrightarrow> Path w = Path v"
      by (auto dest: distinct_ids_same_path)
    with ne have k: "(i, Version w) \<noteq> (j, Version v)" by auto
    have "filter (\<lambda>r. fst r = (j, Version v))
            (filter (\<lambda>r. fst r \<noteq> (i, Version w)) (versions tx)) =
          filter (\<lambda>r. fst r = (j, Version v)) (versions tx)"
      using k by (auto intro: filter_cong)
    with 1 u j k show ?thesis
      by (auto simp: lookupVersion_def)
  next
    case (2 i)
    from 2(2) jp have ij: "i \<noteq> j" by force
    from 2(1) j have pw: "Path w \<noteq> Path v" by auto
    have s: "selectPathID tx' (Path v) = Some j"
      using 2(3) u j by (auto simp: selectPathID_def map_add_def)
    have "filter (\<lambda>r. fst r = (j, Version v))
            (filter (\<lambda>r. fst r \<noteq> (i, Version w)) (versions tx)) =
          filter (\<lambda>r. fst r = (j, Version v)) (versions tx)"
      using ij by (auto intro: filter_cong)
    with 2 u j s ij show ?thesis
      by (auto simp: lookupVersion_def)
  qed
qed

lemma upsertRow_succeeds: "\<exists>tx'. upsertRow tx v = Inr tx'"
  by (cases rule: upsertRow_cases [of tx v]) auto

lemma upsertRows_keep:
  assumes "distinct (map fst (paths tx))"
    and "\<forall>w \<in> set ys. Path w \<noteq> Path v \<or> Version w \<noteq> Version v"
    and "lookupVersion tx (Path v) (Version v) = [ts]"
  shows "\<exists>tx'. upsertRows tx ys = (None, tx') \<and> lookupVersion tx' (Path v) (Version v) = [ts]"
  using assms
proof (induction ys arbitrary: tx)
  case Nil
  then show ?case by simp
next
  case (Cons w ys)
  from upsertRow_succeeds obtain tx1 where u: "upsertRow tx w = Inr tx1" by blast
  from Cons.prems have ne: "Path w \<noteq> Path v \<or> Version w \<noteq> Version v" by simp
  have "lookupVersion tx1 (Path v) (Version v) = [ts]"
    using upsertRow_lookup_other [OF Cons.prems(1) u ne] Cons.prems(3) by simp
  moreover have "distinct (map fst (paths tx1))"
    using upsertRow_distinct_ids [OF Cons.prems(1) u] .
  moreover have "\<forall>w \<in> set ys. Path w \<noteq> Path v \<or> Version w \<noteq> Version v"
    using Cons.prems(2) by simp
  ultimately have "\<exists>tx'. upsertRows tx1 ys = (None, tx')
      \<and> lookupVersion tx' (Path v) (Version v) = [ts]"
    by (intro Cons.IH)
  with u show ?case by simp
qed

lemma upsertRows_replaces:
  assumes "distinct (map fst (paths tx))"
    and "\<forall>w \<in> set ys. Path w \<noteq> Path v \<or> Version w \<noteq> Version v"
  shows "\<exists>tx'. upsertRows tx (xs @ v # ys) = (None, tx')
           \<and> lookupVersion tx' (Path v) (Version v) = [Format (Timestamp v)]"
  using assms(1)
proof (induction xs arbitrary: tx)
  case Nil
  from upsertRow_succeeds obtain tx1 where u: "upsertRow tx v = Inr tx1" by blast
  from upsertRows_keep [OF upsertRow_distinct_ids [OF Nil u] assms(2)
      upsertRow_lookup_same [OF u]] u
  show ?case by simp
next
  case (Cons x xs)
  from upsertRow_succeeds obtain tx1 where u: "upsertRow tx x = Inr tx1" by blast
  from Cons.IH [OF upsertRow_distinct_ids [OF Cons.prems u]] u show ?case by simp
qed

text \<open>What \<open>insertRow\<close> does.\<close>

lemma insertRow_cases:
  obtains i where "selectPathID tx (Path v) = Some i"
      and "(i, Version v) \<in> fst ` set (versions tx)" and "insertRow tx v = Inl InsertVersion"
    | i where "selectPathID tx (Path v) = Some i"
      and "(i, Version v) \<notin> fst ` set (versions tx)"
      and "insertRow tx v = Inr (tx\<lparr>versions :=
              versions tx @ [((i, Version v), Format (Timestamp v))]\<rparr>)"
    | i where "selectPathID tx (Path v) = None" and "i \<notin> fst ` set (paths tx)"
      and "(i, Version v) \<in> fst ` set (versions tx)" and "insertRow tx v = Inl InsertVersion"
    | i where "selectPathID tx (Path v) = None" and "i \<notin> fst ` set (paths tx)"
      and "(i, Version v) \<notin> fst ` set (versions tx)"
      and "insertRow tx v = Inr (tx\<lparr>paths := paths tx @ [(i, Path v)], versions :=
              versions tx @ [((i, Version v), Format (Timestamp v))]\<rparr>)"
proof (cases "selectPathID tx (Path v)")
  case None
  then have n: "Path v \<notin> snd ` set (paths tx)" by (simp add: selectPathID_None)
  define i where "i = (if paths tx = [] then 1 else Max (fst ` set (paths tx)) + 1)"
  have f: "i \<notin> fst ` set (paths tx)"
    using new_id_fresh [of tx] by (auto simp: i_def)
  show ?thesis
  proof (cases "(i, Version v) \<in> fst ` set (versions tx)")
    case True
    then have "insertRow tx v = Inl InsertVersion"
      using None n
      by (simp add: insertRow_def insertPath_def insertVersion_def Let_def i_def)
    with None f True show ?thesis by (rule that(3))
  next
    case False
    then have "insertRow tx v = Inr (tx\<lparr>paths := paths tx @ [(i, Path v)], versions :=
              versions tx @ [((i, Version v), Format (Timestamp v))]\<rparr>)"
      using None n
      by (simp add: insertRow_def insertPath_def insertVersion_def Let_def i_def)
    with None f False show ?thesis by (rule that(4))
  qed
next
  case (Some i)
  then have p: "i \<in> fst ` set (paths tx)"
    by (force dest: selectPathID_Some)
  show ?thesis
  proof (cases "(i, Version v) \<in> fst ` set (versions tx)")
    case True
    then have "insertRow tx v = Inl InsertVersion"
      using Some by (simp add: insertRow_def insertVersion_def)
    with Some True show ?thesis by (rule that(1))
  next
    case False
    then have "insertRow tx v = Inr (tx\<lparr>versions :=
              versions tx @ [((i, Version v), Format (Timestamp v))]\<rparr>)"
      using Some p by (simp add: insertRow_def insertVersion_def)
    with Some False show ?thesis by (rule that(2))
  qed
qed

lemma lookupVersion_nonempty:
  "lookupVersion tx p ver \<noteq> [] \<longleftrightarrow>
     (\<exists>i. selectPathID tx p = Some i \<and> (i, ver) \<in> fst ` set (versions tx))"
  by (force simp: lookupVersion_def filter_empty_conv image_iff split: option.splits)

lemma insertRow_exists_fails:
  assumes "lookupVersion tx (Path v) (Version v) \<noteq> []"
  shows "insertRow tx v = Inl InsertVersion"
  using assms unfolding lookupVersion_nonempty
  by (cases rule: insertRow_cases [of tx v]) auto

lemma insertRow_keeps_rows:
  assumes "insertRow tx w = Inr tx'" and "lookupVersion tx p ver \<noteq> []"
  shows "lookupVersion tx' p ver \<noteq> []"
proof -
  from assms(2) obtain j where j: "selectPathID tx p = Some j"
    and k: "(j, ver) \<in> fst ` set (versions tx)"
    unfolding lookupVersion_nonempty by blast
  show ?thesis
  proof (cases rule: insertRow_cases [of tx w])
    case (2 i)
    with assms(1) have "tx' = tx\<lparr>versions :=
              versions tx @ [((i, Version w), Format (Timestamp w))]\<rparr>" by simp
    with j k show ?thesis
      unfolding lookupVersion_nonempty by force
  next
    case (4 i)
    with assms(1) have t: "tx' = tx\<lparr>paths := paths tx @ [(i, Path w)], versions :=
              versions tx @ [((i, Version w), Format (Timestamp w))]\<rparr>" by simp
    have "selectPathID tx' p = Some j"
      using j unfolding t by (simp add: selectPathID_def map_add_def)
    moreover have "(j, ver) \<in> fst ` set (versions tx')"
      using k unfolding t by force
    ultimately show ?thesis
      unfolding lookupVersion_nonempty by blast
  qed (use assms(1) in auto)
qed

lemma insertRows_exists_fails:
  assumes "lookupVersion tx (Path v) (Version v) \<noteq> []"
  shows "\<exists>e tx'. insertRows tx (xs @ v # ys) = (Some e, tx')"
  using assms
proof (induction xs arbitrary: tx)
  case Nil
  then show ?case by (simp add: insertRow_exists_fails)
next
  case (Cons x xs)
  show ?case
  proof (cases "insertRow tx x")
    case (Inl e)
    then show ?thesis by simp
  next
    case (Inr tx1)
    from Cons.IH [OF insertRow_keeps_rows [OF Inr Cons.prems]] Inr show ?thesis by simp
  qed
qed

section \<open>The estimate of the remaining runtime\<close>

lemma sint_mult_in_range:
  fixes a b :: int64
  assumes "- (2 ^ 63) \<le> sint a * sint b" and "sint a * sint b < 2 ^ 63"
  shows "sint (a * b) = sint a * sint b"
  using assms by (simp add: sint_word_ariths signed_take_bit_int_eq_self)

lemma sint_sdiv_in_range:
  fixes c :: int64
  assumes "- (2 ^ 63) \<le> p" and "p < 2 ^ 63" and "0 < sint c"
  shows "sint (word_of_int (p sdiv sint c) :: int64) = p sdiv sint c"
proof -
  have "p sdiv sint c \<in> {- \<bar>p\<bar>..\<bar>p\<bar>}" by (rule sdiv_int_range)
  moreover have "p sdiv sint c \<noteq> 2 ^ 63"
  proof
    assume e: "p sdiv sint c = 2 ^ 63"
    with calculation assms(1,2) have "p = - (2 ^ 63)" by auto
    with assms(3) have "p sdiv sint c \<le> 0"
      by (simp add: signed_divide_int_def sgn_if pos_imp_zdiv_nonneg_iff)
    with e show False by simp
  qed
  ultimately have "- (2 ^ 63) \<le> p sdiv sint c" and "p sdiv sint c < 2 ^ 63"
    using assms(1,2) by auto
  then show ?thesis
    by (simp add: sint_sbintrunc' signed_take_bit_int_eq_self)
qed

text \<open>
  C8. Whenever the cursor is not none, which holds in every iteration after a batch was
  inserted, the report is printed. Its estimate is left out, with no division, when the
  covered span is zero hours; when the covered hours are positive it is
  \<open>openHours * duration / coveredHours\<close> in \<open>int64\<close> arithmetic, which is the
  truncated quotient of the integers as long as the product does not overflow.
\<close>

theorem C8_remaining_estimate:
  assumes "\<not> IsZero (Timestamp l)"
  shows "\<exists>r. printProgress l duration coveredHours openHours = Some r
          \<and> (coveredHours = 0 \<longrightarrow> remaining r = None)
          \<and> (0 <s coveredHours \<longrightarrow>
               (\<exists>x. remaining r = Some x
                  \<and> x = word_of_int (sint (openHours * duration) sdiv sint coveredHours)
                  \<and> (- (2 ^ 63) \<le> sint openHours * sint duration
                       \<and> sint openHours * sint duration < 2 ^ 63 \<longrightarrow>
                     sint x = (sint openHours * sint duration) sdiv sint coveredHours)))"
proof -
  have "sint (word_of_int (sint (openHours * duration) sdiv sint coveredHours) :: int64)
          = (sint openHours * sint duration) sdiv sint coveredHours"
    if "0 <s coveredHours" and "- (2 ^ 63) \<le> sint openHours * sint duration"
      and "sint openHours * sint duration < 2 ^ 63"
  proof -
    from that(1) have c: "0 < sint coveredHours" by (simp add: word_sless_alt)
    from sint_sdiv_in_range [OF that(2,3) c] sint_mult_in_range [OF that(2,3)]
    show ?thesis by simp
  qed
  with assms show ?thesis
    by (auto simp: printProgress_def)
qed

theorem C8_remaining_estimate_witness:
  "\<not> IsZero (Timestamp exA)
   \<and> (\<exists>r. printProgress exA 3600000000000 0 61000 = Some r \<and> remaining r = None)
   \<and> (0::int64) <s 1000
   \<and> - (2 ^ 63) \<le> sint (61000 :: int64) * sint (3600000000000 :: int64)
   \<and> sint (61000 :: int64) * sint (3600000000000 :: int64) < 2 ^ 63
   \<and> (\<exists>r x. printProgress exA 3600000000000 1000 61000 = Some r \<and> remaining r = Some x
         \<and> sint x = 219600000000000)"
proof -
  have h: "\<not> IsZero (Timestamp exA)" by code_simp
  have p: "(0::int64) <s 1000" by (simp add: word_sless_alt)
  have b: "- (2 ^ 63) \<le> sint (61000 :: int64) * sint (3600000000000 :: int64)"
    "sint (61000 :: int64) * sint (3600000000000 :: int64) < 2 ^ 63"
    by simp_all
  have q: "(sint (61000 :: int64) * sint (3600000000000 :: int64)) sdiv sint (1000 :: int64)
            = 219600000000000"
    by simp
  from C8_remaining_estimate [OF h, of 3600000000000 0 61000]
  have z: "\<exists>r. printProgress exA 3600000000000 0 61000 = Some r \<and> remaining r = None"
    by auto
  from C8_remaining_estimate [OF h, of 3600000000000 1000 61000] p b q
  have "\<exists>r x. printProgress exA 3600000000000 1000 61000 = Some r \<and> remaining r = Some x
         \<and> sint x = 219600000000000"
    by metis
  with h z p b show ?thesis by blast
qed

section \<open>The two engines\<close>

lemma lookupVersion_empty:
  "lookupVersion tx p ver = [] \<longleftrightarrow>
     (\<forall>i. selectPathID tx p = Some i \<longrightarrow> (i, ver) \<notin> fst ` set (versions tx))"
  using lookupVersion_nonempty [of tx p ver] by blast

lemma wfTables_fk:
  "wfTables tx \<Longrightarrow> (i, ver) \<in> fst ` set (versions tx) \<Longrightarrow> i \<in> fst ` set (paths tx)"
  by (force simp: wfTables_def list_all_iff)

text \<open>A record whose pair has no row is written by both statements in the same way.\<close>

lemma insertRow_fresh:
  assumes wf: "wfTables tx" and fr: "lookupVersion tx (Path v) (Version v) = []"
  shows "\<exists>tx'. insertRow tx v = Inr tx' \<and> upsertRow tx v = Inr tx' \<and> wfTables tx'
           \<and> (\<forall>w :: VersionInfo. (Path w \<noteq> Path v \<or> Version w \<noteq> Version v)
                  \<longrightarrow> lookupVersion tx (Path w) (Version w) = []
                  \<longrightarrow> lookupVersion tx' (Path w) (Version w) = [])"
proof (cases "selectPathID tx (Path v)")
  case (Some i)
  with fr have k: "(i, Version v) \<notin> fst ` set (versions tx)"
    by (simp add: lookupVersion_empty)
  from Some have ip: "(i, Path v) \<in> set (paths tx)" by (rule selectPathID_Some)
  then have p: "i \<in> fst ` set (paths tx)" by force
  define tx' where "tx' = tx\<lparr>versions := versions tx @ [((i, Version v), Format (Timestamp v))]\<rparr>"
  from k have "\<forall>r \<in> set (versions tx). fst r \<noteq> (i, Version v)"
    by force
  then have f: "filter (\<lambda>r. fst r \<noteq> (i, Version v)) (versions tx) = versions tx"
    by (simp add: filter_id_conv)
  have a: "insertRow tx v = Inr tx'"
    using Some k p by (simp add: insertRow_def insertVersion_def tx'_def)
  have b: "upsertRow tx v = Inr tx'"
    using Some p f by (simp add: upsertRow_def insertOrReplaceVersion_def tx'_def)
  have c: "wfTables tx'"
    using wf k p by (auto simp: wfTables_def tx'_def)
  have d: "lookupVersion tx' (Path w) (Version w) = []"
    if ne: "Path w \<noteq> Path v \<or> Version w \<noteq> Version v"
      and e: "lookupVersion tx (Path w) (Version w) = []" for w :: VersionInfo
  proof -
    have "(j, Version w) \<notin> fst ` set (versions tx')" if j: "selectPathID tx' (Path w) = Some j" for j
    proof -
      from j have j': "selectPathID tx (Path w) = Some j" by (simp add: tx'_def)
      with e have o: "(j, Version w) \<notin> fst ` set (versions tx)"
        by (simp add: lookupVersion_empty)
      from j' have "(j, Path w) \<in> set (paths tx)" by (rule selectPathID_Some)
      with ip wf have "j = i \<Longrightarrow> Path w = Path v"
        by (auto simp: wfTables_def dest: distinct_ids_same_path)
      with ne have "(j, Version w) \<noteq> (i, Version v)" by auto
      with o show ?thesis by (auto simp: tx'_def)
    qed
    then show ?thesis by (simp add: lookupVersion_empty)
  qed
  from a b c d show ?thesis by blast
next
  case None
  then have n: "Path v \<notin> snd ` set (paths tx)" by (simp add: selectPathID_None)
  define i where "i = (if paths tx = [] then 1 else Max (fst ` set (paths tx)) + 1)"
  have fi: "i \<notin> fst ` set (paths tx)"
    using new_id_fresh [of tx] by (auto simp: i_def)
  with wf have k: "(i, ver) \<notin> fst ` set (versions tx)" for ver
    by (auto dest: wfTables_fk)
  define tx' where "tx' = tx\<lparr>paths := paths tx @ [(i, Path v)],
    versions := versions tx @ [((i, Version v), Format (Timestamp v))]\<rparr>"
  from k have "\<forall>r \<in> set (versions tx). fst r \<noteq> (i, Version v)"
    by force
  then have f: "filter (\<lambda>r. fst r \<noteq> (i, Version v)) (versions tx) = versions tx"
    by (simp add: filter_id_conv)
  have a: "insertRow tx v = Inr tx'"
    using None n k
    by (simp add: insertRow_def insertPath_def insertVersion_def Let_def i_def [symmetric] tx'_def)
  have b: "upsertRow tx v = Inr tx'"
    using None n f
    by (simp add: upsertRow_def insertPath_def insertOrReplaceVersion_def Let_def
        i_def [symmetric] tx'_def)
  have c: "wfTables tx'"
    using wf k fi n by (auto simp: wfTables_def tx'_def list_all_iff)
  have d: "lookupVersion tx' (Path w) (Version w) = []"
    if ne: "Path w \<noteq> Path v \<or> Version w \<noteq> Version v"
      and e: "lookupVersion tx (Path w) (Version w) = []" for w :: VersionInfo
  proof -
    have "(j, Version w) \<notin> fst ` set (versions tx')" if j: "selectPathID tx' (Path w) = Some j" for j
    proof (cases "Path w = Path v")
      case True
      with j None have "j = i"
        by (simp add: tx'_def selectPathID_def map_add_def)
      moreover from True ne have "Version w \<noteq> Version v" by simp
      ultimately show ?thesis using k by (auto simp: tx'_def)
    next
      case False
      with j have j': "selectPathID tx (Path w) = Some j"
        by (simp add: tx'_def selectPathID_def map_add_def split: option.splits)
      with e have o: "(j, Version w) \<notin> fst ` set (versions tx)"
        by (simp add: lookupVersion_empty)
      from j' have "(j, Path w) \<in> set (paths tx)" by (rule selectPathID_Some)
      with fi have "j \<noteq> i" by force
      with o show ?thesis by (auto simp: tx'_def)
    qed
    then show ?thesis by (simp add: lookupVersion_empty)
  qed
  from a b c d show ?thesis by blast
qed

lemma insertRows_fresh:
  assumes "wfTables tx" and "distinct (map (\<lambda>v. (Path v, Version v)) ins)"
    and "\<forall>v \<in> set ins. lookupVersion tx (Path v) (Version v) = []"
  shows "\<exists>tx'. insertRows tx ins = (None, tx') \<and> upsertRows tx ins = (None, tx')
           \<and> wfTables tx'"
  using assms
proof (induction ins arbitrary: tx)
  case Nil
  then show ?case by simp
next
  case (Cons v ins)
  from Cons.prems have fr: "lookupVersion tx (Path v) (Version v) = []" by simp
  from insertRow_fresh [OF Cons.prems(1) fr] obtain tx1 where
    a: "insertRow tx v = Inr tx1" and b: "upsertRow tx v = Inr tx1" and c: "wfTables tx1"
    and d: "\<And>w :: VersionInfo. Path w \<noteq> Path v \<or> Version w \<noteq> Version v
              \<Longrightarrow> lookupVersion tx (Path w) (Version w) = []
              \<Longrightarrow> lookupVersion tx1 (Path w) (Version w) = []"
    by blast
  have "\<forall>w \<in> set ins. lookupVersion tx1 (Path w) (Version w) = []"
  proof
    fix w assume w: "w \<in> set ins"
    with Cons.prems(2) have "(Path w, Version w) \<noteq> (Path v, Version v)"
      by (auto simp: image_iff)
    then have "Path w \<noteq> Path v \<or> Version w \<noteq> Version v" by simp
    moreover from w Cons.prems(3) have "lookupVersion tx (Path w) (Version w) = []" by simp
    ultimately show "lookupVersion tx1 (Path w) (Version w) = []" using d by blast
  qed
  moreover from Cons.prems(2) have "distinct (map (\<lambda>v. (Path v, Version v)) ins)" by simp
  ultimately have "\<exists>tx'. insertRows tx1 ins = (None, tx') \<and> upsertRows tx1 ins = (None, tx')
           \<and> wfTables tx'"
    using c by (intro Cons.IH)
  with a b show ?case by simp
qed

text \<open>
  C9. The engines do not behave identically on every batch: where a record to write has
  a row already, the update command replaces the row and goes on, and
  \<open>SynchronizeDatabase\<close> fails the batch. Here the store holds \<open>exA\<close>, the cursor is
  \<open>exA\<close>, and the feed answers with \<open>exA\<close> and the same version at a later time.
\<close>

theorem C9_engines_differ_on_duplicate:
  "syncBatch exState [exA, exA'] =
     Stop (Failed (InsertBatch InsertVersion)) (exState\<lparr>db := exDB\<lparr>pending := Some exTables\<rparr>\<rparr>)
   \<and> updateBatch exState [exA, exA'] =
     Continue (exState\<lparr>db := \<lparr>committed = \<lparr>paths = [(1, ''example.com/a'')],
                                    versions = [((1, ''v1.0.0''), ''2019-04-10T19:08:55Z'')]\<rparr>,
                               pending = None\<rparr>,
                        lastv := exA'\<rparr>)"
  by code_simp

text \<open>
  What holds: on a store that satisfies the constraints of the schema, for a batch on
  which \<open>SynchronizeDatabase\<close> does not panic, whose records to insert have different
  (path, version) pairs none of which has a row, and which is not the one record equal to
  a cursor with the zero timestamp, both loop bodies submit the same records and end with
  the same step: the same decision to stop or go on, the same store, cursor and lines on
  standard error.
\<close>

theorem C9_engines_agree:
  assumes wf: "wfTables (committed (db s))"
    and v: "versionsToInsert (lastv s) vs = Some (bug, ins)"
    and di: "distinct (map (\<lambda>v. (Path v, Version v)) ins)"
    and fr: "\<forall>v \<in> set ins. lookupVersion (committed (db s)) (Path v) (Version v) = []"
    and nz: "\<not> (IsZero (Timestamp (lastv s)) \<and> length vs = 1 \<and> Path (vs ! 0) = Path (lastv s)
               \<and> Version (vs ! 0) = Version (lastv s)
               \<and> Timestamp (vs ! 0) = Timestamp (lastv s))"
  shows "insertRows (committed (db s)) ins = upsertRows (committed (db s)) ins
       \<and> updateRows (lastv s) 0 vs (committed (db s)) (stderr s) =
           (case upsertRows (committed (db s)) ins of (e, tx') \<Rightarrow> (e, tx', stderr s @ bug))
       \<and> syncBatch s vs = updateBatch s vs"
proof -
  from insertRows_fresh [OF wf di fr] obtain tx' where
    i: "insertRows (committed (db s)) ins = (None, tx')"
    and u: "upsertRows (committed (db s)) ins = (None, tx')"
    by blast
  have iv: "insertVersions (db s) ins = (None, (db s)\<lparr>committed := tx', pending := None\<rparr>)"
    using i by (simp add: insertVersions_def)
  consider (zero) "IsZero (Timestamp (lastv s))" "ins = vs" "bug = []"
    | (match) w ws where "\<not> IsZero (Timestamp (lastv s))" "vs = w # ws" "ins = ws" "bug = []"
        "Path w = Path (lastv s)" "Version w = Version (lastv s)"
        "Timestamp w = Timestamp (lastv s)"
    | (other) w ws where "\<not> IsZero (Timestamp (lastv s))" "vs = w # ws" "ins = vs"
        "bug = [(lastv s, w)]"
        "\<not> (Path w = Path (lastv s) \<and> Version w = Version (lastv s)
            \<and> Timestamp w = Timestamp (lastv s))"
    using v by (cases vs) (auto simp: versionsToInsert_def drop_Suc split: if_splits)
  then have "updateRows (lastv s) 0 vs (committed (db s)) (stderr s) = (None, tx', stderr s @ bug)
      \<and> syncBatch s vs = updateBatch s vs"
  proof cases
    case zero
    have r: "updateRows (lastv s) 0 vs (committed (db s)) (stderr s) = (None, tx', stderr s)"
    proof (cases vs)
      case Nil
      with u zero show ?thesis by simp
    next
      case (Cons w ws)
      with u zero show ?thesis
        by (auto simp: updateRows_Suc split: sum.splits)
    qed
    have "syncBatch s vs = updateBatch s vs"
    proof (cases "vs = []")
      case True
      with v zero show ?thesis by (simp add: syncBatch_def updateBatch_def)
    next
      case False
      with nz zero have "\<not> (length vs = 1 \<and> Path (vs ! 0) = Path (lastv s)
               \<and> Version (vs ! 0) = Version (lastv s)
               \<and> Timestamp (vs ! 0) = Timestamp (lastv s))" by blast
      with False v zero iv r show ?thesis
        by (simp add: syncBatch_def updateBatch_def)
    qed
    with r zero(3) show ?thesis by simp
  next
    case match
    have r: "updateRows (lastv s) 0 vs (committed (db s)) (stderr s) = (None, tx', stderr s)"
      using u match by (simp add: updateRows_Suc)
    have "syncBatch s vs = updateBatch s vs"
    proof (cases "ws = []")
      case True
      with v match show ?thesis by (simp add: syncBatch_def updateBatch_def)
    next
      case False
      with v match iv r show ?thesis
        by (simp add: syncBatch_def updateBatch_def)
    qed
    with r match(4) show ?thesis by simp
  next
    case other
    have r: "updateRows (lastv s) 0 vs (committed (db s)) (stderr s)
              = (None, tx', stderr s @ [(lastv s, w)])"
      using u other by (auto simp: updateRows_Suc split: sum.splits)
    have "syncBatch s vs = updateBatch s vs"
      using v other iv r by (auto simp: syncBatch_def updateBatch_def)
    with r other(4) show ?thesis by simp
  qed
  with i u show ?thesis by simp
qed

theorem C9_engines_agree_witness:
  "wfTables (committed (db exState))
   \<and> versionsToInsert (lastv exState) [exA, exB, exC] = Some ([], [exB, exC])
   \<and> distinct (map (\<lambda>v. (Path v, Version v)) [exB, exC])
   \<and> lookupVersion (committed (db exState)) (Path exB) (Version exB) = []
   \<and> lookupVersion (committed (db exState)) (Path exC) (Version exC) = []
   \<and> insertRows (committed (db exState)) [exB, exC] = upsertRows (committed (db exState)) [exB, exC]
   \<and> syncBatch exState [exA, exB, exC] = updateBatch exState [exA, exB, exC]
   \<and> (\<exists>t. updateBatch exState [exA, exB, exC] = Continue t \<and> lastv t = exC
          \<and> versions (committed (db t)) =
                [((1, ''v1.0.0''), ''2019-04-10T19:08:52.997264Z''),
                 ((1, ''v1.1.0''), ''2019-04-10T19:08:53.997264Z''),
                 ((2, ''v0.1.0''), ''2019-04-10T19:08:54.997264Z'')])"
proof -
  have h1: "wfTables (committed (db exState))" by code_simp
  have h2: "versionsToInsert (lastv exState) [exA, exB, exC] = Some ([], [exB, exC])"
    by code_simp
  have h3: "distinct (map (\<lambda>v. (Path v, Version v)) [exB, exC])" by code_simp
  have l1: "lookupVersion (committed (db exState)) (Path exB) (Version exB) = []"
    and l2: "lookupVersion (committed (db exState)) (Path exC) (Version exC) = []"
    by code_simp+
  then have h4: "\<forall>v \<in> set [exB, exC].
      lookupVersion (committed (db exState)) (Path v) (Version v) = []"
    by simp
  have h5: "\<not> (IsZero (Timestamp (lastv exState)) \<and> length [exA, exB, exC] = 1
      \<and> Path ([exA, exB, exC] ! 0) = Path (lastv exState)
      \<and> Version ([exA, exB, exC] ! 0) = Version (lastv exState)
      \<and> Timestamp ([exA, exB, exC] ! 0) = Timestamp (lastv exState))"
    by simp
  have "(case updateBatch exState [exA, exB, exC] of
           Continue t \<Rightarrow> lastv t = exC \<and> versions (committed (db t)) =
                [((1, ''v1.0.0''), ''2019-04-10T19:08:52.997264Z''),
                 ((1, ''v1.1.0''), ''2019-04-10T19:08:53.997264Z''),
                 ((2, ''v0.1.0''), ''2019-04-10T19:08:54.997264Z'')]
         | Stop out t \<Rightarrow> False)"
    by code_simp
  then have e: "\<exists>t. updateBatch exState [exA, exB, exC] = Continue t \<and> lastv t = exC
          \<and> versions (committed (db t)) =
                [((1, ''v1.0.0''), ''2019-04-10T19:08:52.997264Z''),
                 ((1, ''v1.1.0''), ''2019-04-10T19:08:53.997264Z''),
                 ((2, ''v0.1.0''), ''2019-04-10T19:08:54.997264Z'')]"
    by (auto split: step.splits)
  from C9_engines_agree [OF h1 h2 h3 h4 h5]
  have c: "insertRows (committed (db exState)) [exB, exC]
             = upsertRows (committed (db exState)) [exB, exC]"
    "syncBatch exState [exA, exB, exC] = updateBatch exState [exA, exB, exC]"
    by blast+
  show ?thesis
    by (intro conjI h1 h2 h3 l1 l2 c e)
qed

section \<open>Round trip of a timestamp through its text\<close>

subsection \<open>The calendar\<close>

lemma div_eqI:
  fixes k q m :: int
  assumes "0 \<le> m" and "m < k"
  shows "(k * q + m) div k = q"
  using assms by (simp add: div_pos_pos_trivial)

lemma mod_eqI:
  fixes k q m :: int
  assumes "0 \<le> m" and "m < k"
  shows "(k * q + m) mod k = m"
  using assms by (simp add: mod_pos_pos_trivial)

lemma mod_zero_range:
  fixes z k :: int
  assumes "1 \<le> z" and "z \<le> k"
  shows "z mod k = 0 \<longleftrightarrow> z = k"
proof (cases "z = k")
  case True
  then show ?thesis by simp
next
  case False
  with assms have "z mod k = z" by (simp add: mod_pos_pos_trivial)
  with assms False show ?thesis by simp
qed

lemma absDate_sound:
  assumes lo: "- 366 \<le> d" and hi: "d \<le> 3652058"
  shows "\<exists>y yd. absDate d = (y, yd) \<and> 0 \<le> y \<and> y \<le> 9999 \<and> 0 \<le> yd
           \<and> yd < (if isLeap y then 366 else 365) \<and> daysSinceEpoch y + yd = d"
proof -
  define a where "a = d div 146097"
  define r where "r = d mod 146097"
  have d: "d = 146097 * a + r" and r: "0 \<le> r" "r < 146097"
    by (simp_all add: a_def r_def)
  define b where "b = min 3 (r div 36524)"
  define r1 where "r1 = r - 36524 * b"
  have rq: "r = 36524 * (r div 36524) + r mod 36524" "0 \<le> r mod 36524" "r mod 36524 < 36524"
    by simp_all
  have b: "0 \<le> b" "b \<le> 3" and r1: "0 \<le> r1" "r1 \<le> 36524" "b < 3 \<Longrightarrow> r1 < 36524"
    using r rq unfolding b_def r1_def min_def by (simp_all split: if_splits; linarith)+
  define c where "c = r1 div 1461"
  define r2 where "r2 = r1 mod 1461"
  have r1d: "r1 = 1461 * c + r2" and r2: "0 \<le> r2" "r2 < 1461"
    by (simp_all add: c_def r2_def)
  have c: "0 \<le> c" "c \<le> 24" and r2': "b < 3 \<Longrightarrow> c = 24 \<Longrightarrow> r2 < 1460"
    using r1 r1d r2 by linarith+
  define e where "e = min 3 (r2 div 365)"
  define yd where "yd = r2 - 365 * e"
  have r2q: "r2 = 365 * (r2 div 365) + r2 mod 365" "0 \<le> r2 mod 365" "r2 mod 365 < 365"
    by simp_all
  have e: "0 \<le> e" "e \<le> 3" and yd: "0 \<le> yd" "yd \<le> 365" "e < 3 \<Longrightarrow> yd < 365"
    using r2 r2q unfolding e_def yd_def min_def by (simp_all split: if_splits; linarith)+
  have yd': "b < 3 \<Longrightarrow> c = 24 \<Longrightarrow> yd < 365"
    using r2' r2q e unfolding e_def yd_def min_def by (simp split: if_splits; linarith)
  define y where "y = 400 * a + 100 * b + 4 * c + e + 1"
  have ad: "absDate d = (y, yd)"
    by (simp add: absDate_def Let_def a_def r_def b_def r1_def c_def r2_def e_def yd_def y_def)
  have total: "d = 146097 * a + 36524 * b + 1461 * c + 365 * e + yd"
    using d r1d by (simp add: r1_def yd_def)
  have q4: "(y - 1) div 4 = 100 * a + 25 * b + c"
  proof -
    have "y - 1 = 4 * (100 * a + 25 * b + c) + e" by (simp add: y_def)
    then show ?thesis using e div_eqI [of e 4 "100 * a + 25 * b + c"] by simp
  qed
  have q100: "(y - 1) div 100 = 4 * a + b"
  proof -
    have "y - 1 = 100 * (4 * a + b) + (4 * c + e)" by (simp add: y_def)
    then show ?thesis using e c div_eqI [of "4 * c + e" 100 "4 * a + b"] by simp
  qed
  have q400: "(y - 1) div 400 = a"
  proof -
    have "y - 1 = 400 * a + (100 * b + 4 * c + e)" by (simp add: y_def)
    then show ?thesis using e c b div_eqI [of "100 * b + 4 * c + e" 400 a] by simp
  qed
  have dse: "daysSinceEpoch y + yd = d"
    unfolding daysSinceEpoch_def Let_def q4 q100 q400 total by (simp add: y_def)
  have m4: "y mod 4 = 0 \<longleftrightarrow> e = 3"
  proof -
    have "y = 4 * (100 * a + 25 * b + c) + (e + 1)" by (simp add: y_def)
    moreover have "(4 * (100 * a + 25 * b + c) + (e + 1)) mod 4 = (e + 1) mod 4"
      by (rule mod_mult_self4)
    ultimately have "y mod 4 = (e + 1) mod 4" by simp
    moreover have "(e + 1) mod 4 = 0 \<longleftrightarrow> e + 1 = 4"
      using e by (intro mod_zero_range) simp_all
    ultimately show ?thesis by auto
  qed
  have m100: "y mod 100 = 0 \<longleftrightarrow> c = 24 \<and> e = 3"
  proof -
    have "y = 100 * (4 * a + b) + (4 * c + e + 1)" by (simp add: y_def)
    moreover have "(100 * (4 * a + b) + (4 * c + e + 1)) mod 100 = (4 * c + e + 1) mod 100"
      by (rule mod_mult_self4)
    ultimately have "y mod 100 = (4 * c + e + 1) mod 100" by simp
    moreover have "(4 * c + e + 1) mod 100 = 0 \<longleftrightarrow> 4 * c + e + 1 = 100"
      using e c by (intro mod_zero_range) simp_all
    moreover have "4 * c + e + 1 = 100 \<longleftrightarrow> c = 24 \<and> e = 3"
      using e c by linarith
    ultimately show ?thesis by simp
  qed
  have m400: "y mod 400 = 0 \<longleftrightarrow> b = 3 \<and> c = 24 \<and> e = 3"
  proof -
    have "y = 400 * a + (100 * b + 4 * c + e + 1)" by (simp add: y_def)
    moreover have "(400 * a + (100 * b + 4 * c + e + 1)) mod 400 = (100 * b + 4 * c + e + 1) mod 400"
      by (rule mod_mult_self4)
    ultimately have "y mod 400 = (100 * b + 4 * c + e + 1) mod 400" by simp
    moreover have "(100 * b + 4 * c + e + 1) mod 400 = 0 \<longleftrightarrow> 100 * b + 4 * c + e + 1 = 400"
      using e c b by (intro mod_zero_range) simp_all
    moreover have "100 * b + 4 * c + e + 1 = 400 \<longleftrightarrow> b = 3 \<and> c = 24 \<and> e = 3"
      using e c b by linarith
    ultimately show ?thesis by simp
  qed
  have leap: "isLeap y \<longleftrightarrow> e = 3 \<and> (c \<noteq> 24 \<or> b = 3)"
    unfolding isLeap_def m4 m100 m400 by auto
  have ydb: "yd < (if isLeap y then 366 else 365)"
    using yd yd' b e unfolding leap by (auto; linarith)
  have a: "- 1 \<le> a" "a \<le> 24"
    using lo hi d r by linarith+
  have y0: "0 \<le> y"
  proof (cases "a = - 1")
    case True
    with lo d have "145731 \<le> r" by simp
    with rq r have "b = 3" unfolding b_def min_def by (simp split: if_splits; linarith)
    with \<open>145731 \<le> r\<close> have "36159 \<le> r1" by (simp add: r1_def)
    with r1d r2 c have "c = 24" by linarith
    with \<open>36159 \<le> r1\<close> r1d have "1095 \<le> r2" by simp
    with r2q r2 have "e = 3" unfolding e_def min_def by (simp split: if_splits; linarith)
    with True \<open>b = 3\<close> \<open>c = 24\<close> show ?thesis by (simp add: y_def)
  next
    case False
    with a b c e show ?thesis by (simp add: y_def)
  qed
  have y1: "y \<le> 9999"
  proof (cases "a = 24")
    case True
    with hi total yd have "36524 * b + 1461 * c + 365 * e \<le> 145730" by simp
    with b c e have "\<not> (b = 3 \<and> c = 24 \<and> e = 3)" by auto
    with b c e have "100 * b + 4 * c + e \<le> 398" by linarith
    with True show ?thesis by (simp add: y_def)
  next
    case False
    with a b c e show ?thesis by (simp add: y_def)
  qed
  from ad y0 y1 yd(1) ydb dse show ?thesis by blast
qed

lemma daysBefore_simps:
  "daysBefore 0 = 0" "daysBefore 1 = 31" "daysBefore 2 = 59" "daysBefore 3 = 90"
  "daysBefore 4 = 120" "daysBefore 5 = 151" "daysBefore 6 = 181" "daysBefore 7 = 212"
  "daysBefore 8 = 243" "daysBefore 9 = 273" "daysBefore 10 = 304" "daysBefore 11 = 334"
  "daysBefore 12 = 365" "daysBefore (Suc 0) = 31" "daysBefore (Suc (Suc 0)) = 59"
  by (simp_all add: daysBefore_def)

lemma monthDay_plain:
  assumes "0 \<le> day" and "day < 365"
  shows "\<exists>n lo hi. (n, lo, hi) \<in> monthTable \<and> lo \<le> day \<and> day < hi
           \<and> (let m = nat (day div 31); e = daysBefore (m + 1);
                   m' = (if e \<le> day then m + 1 else m);
                   b = (if e \<le> day then e else daysBefore m)
               in (int m' + 1, day - b + 1)) = (n, day - lo + 1)"
proof -
  define k where "k = nat (day div 31)"
  have kd: "int k = day div 31" using assms by (simp add: k_def)
  have "day = 31 * (day div 31) + day mod 31" "0 \<le> day mod 31" "day mod 31 < 31"
    by simp_all
  with kd have dk: "31 * int k \<le> day" "day < 31 * int k + 31" by linarith+
  with assms have "k < 12" by linarith
  then consider "k = 0" | "k = 1" | "k = 2" | "k = 3" | "k = 4" | "k = 5" | "k = 6"
    | "k = 7" | "k = 8" | "k = 9" | "k = 10" | "k = 11"
    by (auto simp: eval_nat_numeral less_Suc_eq)
  then show ?thesis
    unfolding Let_def k_def [symmetric] monthTable_def
    using dk assms by cases (simp_all add: daysBefore_simps)
qed


lemma monthDay_sound:
  assumes "0 \<le> yd" and "yd < (if isLeap year then 366 else 365)"
  shows "\<exists>m dd. monthDay (isLeap year) yd = (m, dd) \<and> 1 \<le> m \<and> m \<le> 12 \<and> 1 \<le> dd
           \<and> dd \<le> daysIn m year
           \<and> daysBefore (nat m - 1) + (if isLeap year \<and> 3 \<le> m then 1 else 0) + (dd - 1) = yd"
proof (cases "isLeap year \<and> yd = 59")
  case True
  then show ?thesis
    by (simp add: monthDay_def daysIn_def daysBefore_simps)
next
  case False
  define day where "day = (if isLeap year \<and> 59 < yd then yd - 1 else yd)"
  have day: "0 \<le> day" "day < 365"
    using assms False by (auto simp: day_def split: if_splits)
  from monthDay_plain [OF day] obtain n lo hi where t: "(n, lo, hi) \<in> monthTable"
    and lo: "lo \<le> day" and hi: "day < hi"
    and e: "(let m = nat (day div 31); e = daysBefore (m + 1);
                   m' = (if e \<le> day then m + 1 else m);
                   b = (if e \<le> day then e else daysBefore m)
               in (int m' + 1, day - b + 1)) = (n, day - lo + 1)"
    by blast
  have "monthDay (isLeap year) yd =
      (let day = (if isLeap year \<and> 59 < yd then yd - 1 else yd);
           m = nat (day div 31); e = daysBefore (m + 1);
           m' = (if e \<le> day then m + 1 else m);
           b = (if e \<le> day then e else daysBefore m)
       in (int m' + 1, day - b + 1))"
    by (simp only: monthDay_def False if_False)
  also have "\<dots> = (let m = nat (day div 31); e = daysBefore (m + 1);
                   m' = (if e \<le> day then m + 1 else m);
                   b = (if e \<le> day then e else daysBefore m)
               in (int m' + 1, day - b + 1))"
    unfolding day_def Let_def ..
  finally have md: "monthDay (isLeap year) yd = (n, day - lo + 1)"
    using e by (simp only:)
  have r: "1 \<le> n \<and> n \<le> 12 \<and> day - lo + 1 \<le> daysIn n year
      \<and> daysBefore (nat n - 1) = lo
      \<and> (isLeap year \<and> 59 < yd \<longleftrightarrow> isLeap year \<and> 3 \<le> n)"
    using t lo hi False unfolding monthTable_def day_def
    by (elim insertE emptyE) (simp_all add: daysIn_def daysBefore_simps split: if_splits)
  then have s: "daysBefore (nat n - 1) + (if isLeap year \<and> 3 \<le> n then 1 else 0)
      + (day - lo + 1 - 1) = yd"
    by (auto simp: day_def)
  from md lo r s show ?thesis by auto
qed

subsection \<open>Decimal digits\<close>

lemma digit_value:
  assumes "0 \<le> d" and "d < 10"
  shows "isDigit (digit d) \<and> (of_char (digit d) :: int) - 48 = d"
proof -
  from assms have "d \<in> {0, 1, 2, 3, 4, 5, 6, 7, 8, 9}" by auto arith
  then show ?thesis
    by (elim insertE emptyE) (simp_all add: digit_def isDigit_def)
qed

lemma length_decimal [simp]: "length (decimal w n) = w"
  by (induction w arbitrary: n) simp_all

lemma isDigit_decimal: "list_all isDigit (decimal w n)"
  by (induction w arbitrary: n) (simp_all add: digit_value)

lemma value_decimal:
  "foldl (\<lambda>x c. x * 10 + (of_char c - 48)) a (decimal w n) = a * 10 ^ w + n mod 10 ^ w"
proof (induction w arbitrary: n)
  case 0
  then show ?case by simp
next
  case (Suc w)
  have m: "n mod (10 * 10 ^ w) = 10 * (n div 10 mod 10 ^ w) + n mod 10"
    by (rule zmod_zmult2_eq) simp
  have d: "(of_char (digit (n mod 10)) :: int) - 48 = n mod 10"
    by (simp add: digit_value)
  have "foldl (\<lambda>x c. x * 10 + (of_char c - 48)) a (decimal (Suc w) n) =
      foldl (\<lambda>x c. x * 10 + (of_char c - 48)) a (decimal w (n div 10)) * 10
        + (of_char (digit (n mod 10)) - 48)"
    by simp
  also have "\<dots> = (a * 10 ^ w + n div 10 mod 10 ^ w) * 10 + n mod 10"
    unfolding Suc d ..
  also have "\<dots> = a * 10 ^ Suc w + n mod 10 ^ Suc w"
    using m by (simp add: algebra_simps)
  finally show ?case .
qed

lemma atoi_decimal:
  assumes "0 \<le> n" and "n < 10 ^ w"
  shows "atoi (decimal w n) = Some n"
  using assms by (simp add: atoi_def isDigit_decimal value_decimal mod_pos_pos_trivial)

lemma digitsLen_le:
  assumes "0 \<le> n" and "n < 10 ^ w" and "0 < w"
  shows "digitsLen n \<le> w"
  using assms
proof (induction w arbitrary: n)
  case 0
  then show ?case by simp
next
  case (Suc w)
  show ?case
  proof (cases "n < 10")
    case True
    then show ?thesis by (subst digitsLen.simps) simp
  next
    case False
    with Suc.prems have w: "0 < w" by (cases w) auto
    from Suc.prems have "n < 10 * 10 ^ w" by simp
    then have "n div 10 < 10 ^ w" by linarith
    moreover from Suc.prems have "0 \<le> n div 10" by simp
    ultimately have "digitsLen (n div 10) \<le> w" using w by (intro Suc.IH)
    with False show ?thesis by (subst digitsLen.simps) simp
  qed
qed

lemma appendInt_decimal:
  assumes "0 \<le> n" and "n < 10 ^ w" and "0 < w"
  shows "appendInt n w = decimal w n"
  using digitsLen_le [OF assms] assms(1) by (simp add: appendInt_def max_def)

lemma parseUint_appendInt:
  assumes "0 \<le> n" and "n < 10 ^ w" and "0 < w" and "lo \<le> n" and "n \<le> hi"
  shows "parseUint (appendInt n w) lo hi = Some n"
  using assms by (simp add: parseUint_def appendInt_decimal atoi_decimal)

subsection \<open>The fraction of a second\<close>

lemma trimZeros_split:
  "s = trimZeros s @ replicate (length s - length (trimZeros s)) (CHR ''0'')"
proof -
  define z where "z = takeWhile (\<lambda>c. c = CHR ''0'') (rev s)"
  have "\<forall>c \<in> set z. c = CHR ''0''"
    by (auto simp: z_def dest: set_takeWhileD)
  then have z: "replicate (length z) (CHR ''0'') = z"
    by (rule replicate_length_same)
  have "rev s = z @ dropWhile (\<lambda>c. c = CHR ''0'') (rev s)"
    by (simp add: z_def)
  then have "rev (rev s) = rev (z @ dropWhile (\<lambda>c. c = CHR ''0'') (rev s))"
    by simp
  then have s: "s = trimZeros s @ rev z"
    by (simp add: trimZeros_def)
  then have "length s = length (trimZeros s) + length z"
    by (metis length_append length_rev)
  then have "length s - length (trimZeros s) = length z" by simp
  moreover have "rev z = z" using z by (metis rev_replicate)
  ultimately show ?thesis using s z by simp
qed

lemma value_zeros:
  "foldl (\<lambda>x c. x * 10 + (of_char c - 48)) (a :: int) (replicate k (CHR ''0'')) = a * 10 ^ k"
  by (induction k arbitrary: a) simp_all

lemma appendNano_parse:
  assumes "0 \<le> ns" and "ns < 1000000000"
  shows "(ns = 0 \<and> appendNano ns = [])
       \<or> (\<exists>ds. appendNano ns = CHR ''.'' # ds \<and> ds \<noteq> [] \<and> list_all isDigit ds
             \<and> length ds \<le> 9 \<and> parseNanoseconds ds = ns)"
proof (cases "ns = 0")
  case True
  then show ?thesis by (simp add: appendNano_def)
next
  case False
  define s where "s = decimal 9 ns"
  define ds where "ds = trimZeros s"
  define k where "k = length s - length ds"
  have s: "s = ds @ replicate k (CHR ''0'')"
    unfolding ds_def k_def by (rule trimZeros_split)
  have ls: "length s = 9" by (simp add: s_def)
  with s have l: "length ds \<le> 9" and k: "k = 9 - length ds"
    by (simp_all add: k_def)
  have "list_all isDigit s" by (simp add: s_def isDigit_decimal)
  with s have d: "list_all isDigit ds" by (metis list_all_append)
  have v: "foldl (\<lambda>x c. x * 10 + (of_char c - 48)) (0 :: int) s = ns"
    using assms by (simp add: s_def value_decimal mod_pos_pos_trivial)
  have "foldl (\<lambda>x c. x * 10 + (of_char c - 48)) (0 :: int) s
       = foldl (\<lambda>x c. x * 10 + (of_char c - 48)) 0 ds * 10 ^ k"
    by (subst s) (simp add: value_zeros)
  with v have p: "foldl (\<lambda>x c. x * 10 + (of_char c - 48)) 0 ds * 10 ^ k = ns"
    by simp
  with False have n: "ds \<noteq> []" by auto
  have "parseNanoseconds ds = ns"
    using l p k by (simp add: parseNanoseconds_def)
  moreover have "appendNano ns = CHR ''.'' # ds"
    using False assms by (simp add: appendNano_def appendInt_decimal ds_def s_def)
  ultimately show ?thesis using n d l by blast
qed

subsection \<open>The layout\<close>

lemma layout:
  assumes "length y = 4" and "length mo = 2" and "length d = 2" and "length h = 2"
    and "length mi = 2" and "length sc = 2"
    and S: "S = y @ ''-'' @ mo @ ''-'' @ d @ ''T'' @ h @ '':'' @ mi @ '':'' @ sc @ rest"
  shows "slice S 0 4 = y" and "slice S 5 7 = mo" and "slice S 8 10 = d"
    and "slice S 11 13 = h" and "slice S 14 16 = mi" and "slice S 17 19 = sc"
    and "S ! 4 = CHR ''-''" and "S ! 7 = CHR ''-''" and "S ! 10 = CHR ''T''"
    and "S ! 13 = CHR '':''" and "S ! 16 = CHR '':''"
    and "drop 19 S = rest" and "\<not> length S < 19"
proof -
  from assms(1) obtain y1 y2 y3 y4 where y: "y = [y1, y2, y3, y4]"
    by (auto simp: length_Suc_conv eval_nat_numeral)
  from assms(2) obtain a1 a2 where mo: "mo = [a1, a2]"
    by (auto simp: length_Suc_conv eval_nat_numeral)
  from assms(3) obtain b1 b2 where d: "d = [b1, b2]"
    by (auto simp: length_Suc_conv eval_nat_numeral)
  from assms(4) obtain c1 c2 where h: "h = [c1, c2]"
    by (auto simp: length_Suc_conv eval_nat_numeral)
  from assms(5) obtain e1 e2 where mi: "mi = [e1, e2]"
    by (auto simp: length_Suc_conv eval_nat_numeral)
  from assms(6) obtain f1 f2 where sc: "sc = [f1, f2]"
    by (auto simp: length_Suc_conv eval_nat_numeral)
  show "slice S 0 4 = y" and "slice S 5 7 = mo" and "slice S 8 10 = d"
    and "slice S 11 13 = h" and "slice S 14 16 = mi" and "slice S 17 19 = sc"
    and "S ! 4 = CHR ''-''" and "S ! 7 = CHR ''-''" and "S ! 10 = CHR ''T''"
    and "S ! 13 = CHR '':''" and "S ! 16 = CHR '':''"
    and "drop 19 S = rest" and "\<not> length S < 19"
    unfolding S y mo d h mi sc by (simp_all add: slice_def eval_nat_numeral)
qed

lemma parseFraction_appendNano:
  assumes "0 \<le> ns" and "ns < 1000000000"
  shows "parseFraction (appendNano ns @ ''Z'') = (ns, ''Z'')"
proof -
  have nz: "\<not> isDigit (CHR ''Z'')" by (simp add: isDigit_def)
  from appendNano_parse [OF assms] show ?thesis
  proof
    assume "ns = 0 \<and> appendNano ns = []"
    then have "appendNano ns = []" and "ns = 0" by blast+
    then show ?thesis by (simp only: parseFraction_def) simp
  next
    assume "\<exists>ds. appendNano ns = CHR ''.'' # ds \<and> ds \<noteq> [] \<and> list_all isDigit ds
             \<and> length ds \<le> 9 \<and> parseNanoseconds ds = ns"
    then obtain ds where a: "appendNano ns = CHR ''.'' # ds" and n: "ds \<noteq> []"
      and d: "list_all isDigit ds" and p: "parseNanoseconds ds = ns"
      by blast
    from n obtain c cs where c: "ds = c # cs" by (cases ds) auto
    from d have "\<forall>x \<in> set ds. isDigit x" by (simp add: list_all_iff)
    then have t: "takeWhile isDigit (ds @ ''Z'') = ds"
      using nz by (simp add: takeWhile_append2)
    have "2 \<le> length (CHR ''.'' # ds @ ''Z'')" by simp
    moreover have "(CHR ''.'' # ds @ ''Z'') ! 0 = CHR ''.''" by simp
    moreover have "isDigit ((CHR ''.'' # ds @ ''Z'') ! 1)" using d c by simp
    moreover have "drop 1 (CHR ''.'' # ds @ ''Z'') = ds @ ''Z''" by simp
    ultimately have "parseFraction (CHR ''.'' # ds @ ''Z'') =
        (parseNanoseconds ds, drop (1 + length ds) (CHR ''.'' # ds @ ''Z''))"
      unfolding parseFraction_def by (simp only: t Let_def simp_thms if_True)
    with a p show ?thesis by simp
  qed
qed

lemma Parse_Format:
  assumes "validTime t"
  shows "Parse (Format t) = Some t"
proof -
  define sec where "sec = t div 1000000000"
  define nsec where "nsec = t mod 1000000000"
  define days where "days = sec div 86400"
  define sod where "sod = sec mod 86400"
  define hour where "hour = sod div 3600"
  define minute where "minute = sod mod 3600 div 60"
  define s where "s = sod mod 60"
  have t: "t = sec * 1000000000 + nsec" and ns: "0 \<le> nsec" "nsec < 1000000000"
    by (simp_all add: sec_def nsec_def)
  have sc: "sec = days * 86400 + sod" and sd: "0 \<le> sod" "sod < 86400"
    by (simp_all add: days_def sod_def)
  from assms have "- 31622400000000000 \<le> t" "t \<le> 315537897599999999999"
    by (simp_all add: validTime_def minTime_def maxTime_def)
  with t ns have "- 31622400 \<le> sec" "sec \<le> 315537897599" by linarith+
  with sc sd have dr: "- 366 \<le> days" "days \<le> 3652058" by linarith+
  have "sod = 3600 * (sod div 3600) + sod mod 3600" "0 \<le> sod mod 3600" "sod mod 3600 < 3600"
    by simp_all
  moreover have "sod mod 3600 = 60 * (sod mod 3600 div 60) + sod mod 3600 mod 60"
    "0 \<le> sod mod 3600 mod 60" "sod mod 3600 mod 60 < 60"
    by simp_all
  moreover have "sod mod 3600 mod 60 = sod mod 60"
    by (simp add: mod_mod_cancel)
  ultimately have hms: "sod = hour * 3600 + minute * 60 + s"
    and hr: "0 \<le> hour" "hour \<le> 23" and mr: "0 \<le> minute" "minute \<le> 59"
    and sr: "0 \<le> s" "s \<le> 59"
    using sd unfolding hour_def minute_def s_def by linarith+
  from absDate_sound [OF dr] obtain year yd where ad: "absDate days = (year, yd)"
    and yr: "0 \<le> year" "year \<le> 9999" and ydr: "0 \<le> yd"
    "yd < (if isLeap year then 366 else 365)" and dse: "daysSinceEpoch year + yd = days"
    by blast
  from monthDay_sound [OF ydr] obtain month day where
    md: "monthDay (isLeap year) yd = (month, day)"
    and mor: "1 \<le> month" "month \<le> 12" and dyr: "1 \<le> day" "day \<le> daysIn month year"
    and yde: "daysBefore (nat month - 1) + (if isLeap year \<and> 3 \<le> month then 1 else 0)
                + (day - 1) = yd"
    by blast
  have "daysIn month year \<le> 31"
  proof -
    from mor have "month \<in> {1, 2, 3, 4, 5, 6, 7, 8, 9, 10, 11, 12}" by auto arith
    then show ?thesis
      by (elim insertE emptyE) (simp_all add: daysIn_def daysBefore_simps)
  qed
  with dyr have dy99: "day \<le> 99" by simp
  have F: "Format t = appendInt year 4 @ ''-'' @ appendInt month 2 @ ''-'' @ appendInt day 2
         @ ''T'' @ appendInt hour 2 @ '':'' @ appendInt minute 2 @ '':'' @ appendInt s 2
         @ (appendNano nsec @ ''Z'')"
    by (simp add: Format_def Let_def sec_def [symmetric] nsec_def [symmetric]
        days_def [symmetric] sod_def [symmetric] ad md hour_def minute_def s_def)
  have l: "length (appendInt year 4) = 4" "length (appendInt month 2) = 2"
    "length (appendInt day 2) = 2" "length (appendInt hour 2) = 2"
    "length (appendInt minute 2) = 2" "length (appendInt s 2) = 2"
    using yr mor dyr dy99 hr mr sr by (simp_all add: appendInt_decimal)
  note L = layout [OF l F]
  have p1: "parseUint (slice (Format t) 0 4) 0 9999 = Some year"
    unfolding L using yr by (intro parseUint_appendInt) simp_all
  have p2: "parseUint (slice (Format t) 5 7) 1 12 = Some month"
    unfolding L using mor by (intro parseUint_appendInt) simp_all
  have p3: "parseUint (slice (Format t) 8 10) 1 (daysIn month year) = Some day"
    unfolding L using dyr dy99 by (intro parseUint_appendInt) simp_all
  have p4: "parseUint (slice (Format t) 11 13) 0 23 = Some hour"
    unfolding L using hr by (intro parseUint_appendInt) simp_all
  have p5: "parseUint (slice (Format t) 14 16) 0 59 = Some minute"
    unfolding L using mr by (intro parseUint_appendInt) simp_all
  have p6: "parseUint (slice (Format t) 17 19) 0 59 = Some s"
    unfolding L using sr by (intro parseUint_appendInt) simp_all
  have p7: "parseFraction (appendNano nsec @ ''Z'') = (nsec, ''Z'')"
    using ns by (rule parseFraction_appendNano)
  have p8: "parseZone ''Z'' = Some 0" by (simp add: parseZone_def)
  have D: "Date year month day hour minute s nsec = t"
  proof -
    have "daysSinceEpoch year + daysBefore (nat month - 1)
              + (if isLeap year \<and> 3 \<le> month then 1 else 0) + (day - 1) = days"
      using dse yde by simp
    then have "Date year month day hour minute s nsec
        = (((days * 24 + hour) * 60 + minute) * 60 + s) * 1000000000 + nsec"
      by (simp only: Date_def Let_def)
    also have "\<dots> = t" using t sc hms by simp
    finally show ?thesis .
  qed
  show ?thesis
    unfolding Parse_def
    by (simp only: L(7-13) p1 p2 p3 p4 p5 p6 p7 p8 D if_False simp_thms not_True_eq_False
        prod.case option.case mult_zero_left diff_0_right)
qed

subsection \<open>The cursor after a restart\<close>

lemma lastVersionInfo_single:
  assumes "validTime (Timestamp v)"
  shows "insertVersions emptyDB [v] =
           (None, \<lparr>committed = \<lparr>paths = [(1, Path v)],
                                 versions = [((1, Version v), Format (Timestamp v))]\<rparr>,
                    pending = None\<rparr>)"
    and "lastVersionInfo \<lparr>committed = \<lparr>paths = [(1, Path v)],
                                 versions = [((1, Version v), Format (Timestamp v))]\<rparr>,
                    pending = None\<rparr> = Inr (v :: VersionInfo)"
  using Parse_Format [OF assms]
  by (simp_all add: insertVersions_def emptyDB_def insertRow_def selectPathID_def
      insertPath_def insertVersion_def lastVersionInfo_def joinedRows_def)

text \<open>
  C10. For a timestamp a feed record can hold (a UTC instant of the years 0000 to 9999),
  parsing the text that \<open>Format\<close> writes gives the timestamp back. So a record written to
  the store and read back by \<open>lastVersionInfo\<close> as the cursor of the next run is the
  record itself, and when the feed returns it first, the overlap check of
  \<open>SynchronizeDatabase\<close> finds it equal to the cursor and drops it.
\<close>

theorem C10_timestamp_roundtrip:
  assumes "validTime (Timestamp v)"
  shows "Parse (Format (Timestamp v)) = Some (Timestamp v)
       \<and> lastVersionInfo (snd (insertVersions emptyDB [v])) = Inr (v :: VersionInfo)
       \<and> (\<not> IsZero (Timestamp v) \<longrightarrow>
            (\<exists>l. lastVersionInfo (snd (insertVersions emptyDB [v])) = Inr l
               \<and> versionsToInsert l (v # vs) = Some ([], vs)))"
proof -
  have a: "lastVersionInfo (snd (insertVersions emptyDB [v])) = Inr v"
    using lastVersionInfo_single [OF assms] by simp
  have "versionsToInsert v (v # vs) = Some ([], vs)" if "\<not> IsZero (Timestamp v)"
    using that by (simp add: versionsToInsert_def)
  with a Parse_Format [OF assms] show ?thesis by simp
qed

theorem C10_timestamp_roundtrip_witness:
  "validTime (Timestamp exA) \<and> \<not> IsZero (Timestamp exA)
   \<and> Format (Timestamp exA) = ''2019-04-10T19:08:52.997264Z''
   \<and> Parse (Format (Timestamp exA)) = Some (Timestamp exA)
   \<and> lastVersionInfo (snd (insertVersions emptyDB [exA])) = Inr exA
   \<and> (\<exists>l. lastVersionInfo (snd (insertVersions emptyDB [exA])) = Inr l
          \<and> versionsToInsert l [exA, exB] = Some ([], [exB]))"
proof -
  have h: "validTime (Timestamp exA)" by code_simp
  have z: "\<not> IsZero (Timestamp exA)" by code_simp
  have f: "Format (Timestamp exA) = ''2019-04-10T19:08:52.997264Z''" by code_simp
  from C10_timestamp_roundtrip [OF h, of "[exB]"] h z f show ?thesis by blast
qed

section \<open>Duplicate pairs and protocol violations\<close>

lemma insertRow_error: "insertRow tx v = Inl e \<Longrightarrow> e = InsertVersion"
  by (cases rule: insertRow_cases [of tx v]) auto

lemma insertRows_error: "insertRows tx vs = (Some e, tx') \<Longrightarrow> e = InsertVersion"
proof (induction vs arbitrary: tx)
  case Nil
  then show ?case by simp
next
  case (Cons v vs)
  then show ?case
    by (cases "insertRow tx v") (auto dest: insertRow_error)
qed

lemma insertVersions_exists_fails:
  assumes "v \<in> set vs" and "lookupVersion (committed d) (Path v) (Version v) \<noteq> []"
  shows "\<exists>tx'. insertRows (committed d) vs = (Some InsertVersion, tx')
           \<and> insertVersions d vs = (Some InsertVersion, d\<lparr>pending := Some tx'\<rparr>)"
proof -
  from assms(1) obtain xs ys where "vs = xs @ v # ys" by (auto simp: in_set_conv_decomp)
  with insertRows_exists_fails [OF assms(2), of xs ys] obtain e tx' where
    i: "insertRows (committed d) vs = (Some e, tx')" by auto
  from insertRows_error [OF i] i show ?thesis
    by (simp add: insertVersions_def)
qed

text \<open>
  The loop of the update command from its first index: it writes the fetched records
  but a leading record that is the cursor.
\<close>

lemma updateRows_0:
  "\<exists>zs err'. updateRows l 0 vs tx err =
                  (case upsertRows tx zs of (e, tx') \<Rightarrow> (e, tx', err'))
     \<and> (zs = vs \<or> (\<exists>w. vs = w # zs \<and> \<not> IsZero (Timestamp l) \<and> Path w = Path l
                          \<and> Version w = Version l \<and> Timestamp w = Timestamp l))"
proof (cases vs)
  case Nil
  then show ?thesis by auto
next
  case (Cons w ws)
  show ?thesis
  proof (cases "\<not> IsZero (Timestamp l) \<and> Path w = Path l \<and> Version w = Version l
      \<and> Timestamp w = Timestamp l")
    case True
    with Cons have "updateRows l 0 vs tx err =
        (case upsertRows tx ws of (e, tx') \<Rightarrow> (e, tx', err))"
      by (simp add: updateRows_Suc)
    with True Cons show ?thesis by blast
  next
    case False
    define err' where "err' = (if \<not> IsZero (Timestamp l) then err @ [(l, w)] else err)"
    from False Cons have "updateRows l 0 vs tx err =
        (case upsertRows tx vs of (e, tx') \<Rightarrow> (e, tx', err'))"
      by (auto simp: updateRows_Suc err'_def Let_def split: sum.splits)
    then show ?thesis by blast
  qed
qed

text \<open>
  C3. A batch holds a record \<open>v\<close> whose path and version have a row in the store; \<open>v\<close> is
  not a leading record equal to the cursor, which the update command skips. The update
  command writes with \<open>INSERT OR REPLACE\<close>: its loop over the batch succeeds, the
  iteration commits and goes on, and afterwards the pair has one row, with the timestamp
  of the last record of the batch that has this pair. \<open>insertVersions\<close> of modindex
  writes with a plain \<open>INSERT\<close>: there the write of a batch with such a record fails with
  the error of "insert version" and the committed tables stay as they were.
\<close>

theorem C3_replace_in_update_command:
  assumes "wfTables (committed (db s))" and "vs = xs @ v # ys"
    and "\<forall>w \<in> set ys. Path w \<noteq> Path v \<or> Version w \<noteq> Version v"
    and "lookupVersion (committed (db s)) (Path v) (Version v) \<noteq> []"
    and "xs \<noteq> [] \<or> \<not> (Path v = Path (lastv s) \<and> Version v = Version (lastv s)
                        \<and> Timestamp v = Timestamp (lastv s))"
  shows "(\<exists>tx' err'. updateRows (lastv s) 0 vs (committed (db s)) (stderr s) = (None, tx', err')
            \<and> updateBatch s vs =
                 Continue (s\<lparr>db := (db s)\<lparr>committed := tx', pending := None\<rparr>,
                             stderr := err', lastv := last vs\<rparr>)
            \<and> lookupVersion tx' (Path v) (Version v) = [Format (Timestamp v)])
       \<and> (\<exists>tx'. insertRows (committed (db s)) vs = (Some InsertVersion, tx')
            \<and> insertVersions (db s) vs = (Some InsertVersion, (db s)\<lparr>pending := Some tx'\<rparr>)
            \<and> committed ((db s)\<lparr>pending := Some tx'\<rparr>) = committed (db s))"
proof -
  from assms(1) have d: "distinct (map fst (paths (committed (db s))))"
    by (simp add: wfTables_def)
  from updateRows_0 [of "lastv s" vs "committed (db s)" "stderr s"] obtain zs err' where
    u: "updateRows (lastv s) 0 vs (committed (db s)) (stderr s) =
          (case upsertRows (committed (db s)) zs of (e, tx') \<Rightarrow> (e, tx', err'))"
    and z: "zs = vs \<or> (\<exists>w. vs = w # zs \<and> \<not> IsZero (Timestamp (lastv s))
              \<and> Path w = Path (lastv s) \<and> Version w = Version (lastv s)
              \<and> Timestamp w = Timestamp (lastv s))"
    by blast
  from z assms(2,5) obtain xs' where zs: "zs = xs' @ v # ys"
    by (cases xs) auto
  from upsertRows_replaces [OF d assms(3), of xs'] obtain tx' where
    r: "upsertRows (committed (db s)) zs = (None, tx')"
    and l: "lookupVersion tx' (Path v) (Version v) = [Format (Timestamp v)]"
    unfolding zs by blast
  from u r have u': "updateRows (lastv s) 0 vs (committed (db s)) (stderr s) = (None, tx', err')"
    by simp
  have "\<not> (length vs = 0 \<or> (length vs = 1 \<and> Path (vs ! 0) = Path (lastv s)
          \<and> Version (vs ! 0) = Version (lastv s) \<and> Timestamp (vs ! 0) = Timestamp (lastv s)))"
    using assms(2,5) by (cases xs) auto
  with u' have b: "updateBatch s vs =
      Continue (s\<lparr>db := (db s)\<lparr>committed := tx', pending := None\<rparr>,
                  stderr := err', lastv := last vs\<rparr>)"
    by (simp add: updateBatch_def)
  have "v \<in> set vs" using assms(2) by simp
  from insertVersions_exists_fails [OF this assms(4)] obtain tx1 where
    "insertRows (committed (db s)) vs = (Some InsertVersion, tx1)"
    "insertVersions (db s) vs = (Some InsertVersion, (db s)\<lparr>pending := Some tx1\<rparr>)"
    by blast
  moreover have "committed ((db s)\<lparr>pending := Some tx1\<rparr>) = committed (db s)" by simp
  ultimately show ?thesis using u' b l by blast
qed

text \<open>
  C3, as the claim has it, fails for \<open>insertVersions\<close> of modindex: the store holds the
  pair of \<open>exA\<close> and the batch is \<open>exB\<close> followed by \<open>exA'\<close>, the pair of \<open>exA\<close> at a
  later time. The write returns the error of "insert version" and the row of the pair
  keeps its old timestamp.
\<close>

theorem C3_plain_insert_fails:
  "fst (insertVersions exDB [exB, exA']) = Some InsertVersion
   \<and> lookupVersion (committed (snd (insertVersions exDB [exB, exA']))) (Path exA') (Version exA')
       = [''2019-04-10T19:08:52.997264Z'']
   \<and> Format (Timestamp exA') = ''2019-04-10T19:08:55Z''"
  by code_simp

theorem C3_replace_in_update_command_witness:
  "wfTables (committed (db exState)) \<and> [exA, exA', exC] = [exA] @ exA' # [exC]
   \<and> lookupVersion (committed (db exState)) (Path exA') (Version exA')
        = [''2019-04-10T19:08:52.997264Z'']
   \<and> (\<exists>tx' err'. updateRows (lastv exState) 0 [exA, exA', exC] (committed (db exState))
                     (stderr exState) = (None, tx', err')
          \<and> updateBatch exState [exA, exA', exC] =
               Continue (exState\<lparr>db := (db exState)\<lparr>committed := tx', pending := None\<rparr>,
                                  stderr := err', lastv := last [exA, exA', exC]\<rparr>)
          \<and> lookupVersion tx' (Path exA') (Version exA') = [''2019-04-10T19:08:55Z''])
   \<and> (\<exists>tx'. insertRows (committed (db exState)) [exA, exA', exC] = (Some InsertVersion, tx')
          \<and> insertVersions (db exState) [exA, exA', exC] =
               (Some InsertVersion, (db exState)\<lparr>pending := Some tx'\<rparr>)
          \<and> committed ((db exState)\<lparr>pending := Some tx'\<rparr>) = committed (db exState))"
proof -
  have h1: "wfTables (committed (db exState))" by code_simp
  have h2: "[exA, exA', exC] = [exA] @ exA' # [exC]" by simp
  have h3: "\<forall>w \<in> set [exC]. Path w \<noteq> Path exA' \<or> Version w \<noteq> Version exA'"
    by code_simp
  have l: "lookupVersion (committed (db exState)) (Path exA') (Version exA')
        = [''2019-04-10T19:08:52.997264Z'']"
    by code_simp
  then have h4: "lookupVersion (committed (db exState)) (Path exA') (Version exA') \<noteq> []"
    by simp
  have h5: "[exA] \<noteq> [] \<or> \<not> (Path exA' = Path (lastv exState)
      \<and> Version exA' = Version (lastv exState) \<and> Timestamp exA' = Timestamp (lastv exState))"
    by simp
  have f: "Format (Timestamp exA') = ''2019-04-10T19:08:55Z''" by code_simp
  note c = C3_replace_in_update_command [OF h1 h2 h3 h4 h5, unfolded f]
  show ?thesis
    by (intro conjI h1 h2 l c [THEN conjunct1] c [THEN conjunct2])
qed

lemma upsertRows_succeeds: "\<exists>tx'. upsertRows tx vs = (None, tx')"
proof (induction vs arbitrary: tx)
  case Nil
  then show ?case by simp
next
  case (Cons v vs)
  from upsertRow_succeeds [of tx v] obtain tx1 where "upsertRow tx v = Inr tx1" by blast
  with Cons [of tx1] show ?case by simp
qed

text \<open>
  C5, as the claim has it, fails for \<open>SynchronizeDatabase\<close>: the cursor is the record
  \<open>exA\<close> of the store and the fetch is \<open>[exB, exA]\<close>. The violation is reported and the
  whole fetch is handed to \<open>insertVersions\<close>, whose plain \<open>INSERT\<close> of \<open>exA\<close> fails on
  the primary key: the run ends with the error "insert batch: insert version". The
  update command continues on the same input.
\<close>

theorem C5_violation_aborts_sync:
  "\<not> IsZero (Timestamp (lastv exState)) \<and> [exB, exA] \<noteq> []
   \<and> \<not> (Path (hd [exB, exA]) = Path (lastv exState)
          \<and> Version (hd [exB, exA]) = Version (lastv exState)
          \<and> Timestamp (hd [exB, exA]) = Timestamp (lastv exState))
   \<and> syncBatch exState [exB, exA] =
        Stop (Failed (InsertBatch InsertVersion))
          (exState\<lparr>stderr := [(exA, exB)],
             db := \<lparr>committed = exTables,
                    pending = Some \<lparr>paths = [(1, ''example.com/a'')],
                      versions = [((1, ''v1.0.0''), ''2019-04-10T19:08:52.997264Z''),
                                  ((1, ''v1.1.0''), ''2019-04-10T19:08:53.997264Z'')]\<rparr>\<rparr>\<rparr>)
   \<and> updateBatch exState [exB, exA] =
        Continue (exState\<lparr>stderr := [(exA, exB)],
          db := \<lparr>committed = \<lparr>paths = [(1, ''example.com/a'')],
                      versions = [((1, ''v1.1.0''), ''2019-04-10T19:08:53.997264Z''),
                                  ((1, ''v1.0.0''), ''2019-04-10T19:08:52.997264Z'')]\<rparr>,
                  pending = None\<rparr>,
          lastv := exA\<rparr>)"
  by code_simp

text \<open>
  C5. The cursor is not none and the first fetched record is not the cursor. Both engines
  write the \<open>BUG\<close> line to standard error and submit the whole fetched list. The update
  command writes every fetched record, commits and continues with the last fetched record
  as the cursor. \<open>SynchronizeDatabase\<close> hands the list to \<open>insertVersions\<close> and continues
  exactly when that write succeeds: it does when the store satisfies the constraints of
  the schema and the fetched records have pairwise different pairs of path and version,
  none with a row in the store; when a fetched record has a row already, the iteration
  ends the run with the error "insert batch: insert version" and commits nothing.
\<close>

theorem C5_protocol_violation:
  assumes "\<not> IsZero (Timestamp (lastv s))" and "vs \<noteq> []"
    and "\<not> (Path (hd vs) = Path (lastv s) \<and> Version (hd vs) = Version (lastv s)
            \<and> Timestamp (hd vs) = Timestamp (lastv s))"
  shows "versionsToInsert (lastv s) vs = Some ([(lastv s, hd vs)], vs)
       \<and> syncBatch s vs =
            (case insertVersions (db s) vs of
               (Some e, d) \<Rightarrow>
                 Stop (Failed (InsertBatch e))
                   (s\<lparr>stderr := stderr s @ [(lastv s, hd vs)], db := d\<rparr>)
             | (None, d) \<Rightarrow>
                 Continue (s\<lparr>stderr := stderr s @ [(lastv s, hd vs)], db := d,
                             lastv := last vs\<rparr>))
       \<and> (wfTables (committed (db s)) \<and> distinct (map (\<lambda>v. (Path v, Version v)) vs)
            \<and> (\<forall>v \<in> set vs. lookupVersion (committed (db s)) (Path v) (Version v) = [])
          \<longrightarrow> (\<exists>tx'. insertRows (committed (db s)) vs = (None, tx')
                 \<and> syncBatch s vs =
                     Continue (s\<lparr>stderr := stderr s @ [(lastv s, hd vs)],
                                 db := (db s)\<lparr>committed := tx', pending := None\<rparr>,
                                 lastv := last vs\<rparr>)))
       \<and> ((\<exists>v \<in> set vs. lookupVersion (committed (db s)) (Path v) (Version v) \<noteq> [])
          \<longrightarrow> (\<exists>tx'. syncBatch s vs =
                     Stop (Failed (InsertBatch InsertVersion))
                       (s\<lparr>stderr := stderr s @ [(lastv s, hd vs)],
                          db := (db s)\<lparr>pending := Some tx'\<rparr>\<rparr>)))
       \<and> (\<exists>tx'. updateRows (lastv s) 0 vs (committed (db s)) (stderr s) =
                   (None, tx', stderr s @ [(lastv s, hd vs)])
              \<and> upsertRows (committed (db s)) vs = (None, tx')
              \<and> updateBatch s vs =
                  Continue (s\<lparr>db := (db s)\<lparr>committed := tx', pending := None\<rparr>,
                              stderr := stderr s @ [(lastv s, hd vs)], lastv := last vs\<rparr>))"
proof -
  from assms obtain v ws where vs: "vs = v # ws" by (cases vs) auto
  have a: "versionsToInsert (lastv s) vs = Some ([(lastv s, hd vs)], vs)"
    using assms by (auto simp: versionsToInsert_def vs)
  have b: "syncBatch s vs =
            (case insertVersions (db s) vs of
               (Some e, d) \<Rightarrow>
                 Stop (Failed (InsertBatch e))
                   (s\<lparr>stderr := stderr s @ [(lastv s, hd vs)], db := d\<rparr>)
             | (None, d) \<Rightarrow>
                 Continue (s\<lparr>stderr := stderr s @ [(lastv s, hd vs)], db := d,
                             lastv := last vs\<rparr>))"
    using a assms(2) by (auto simp: syncBatch_def split: prod.splits option.splits)
  have c: "\<exists>tx'. insertRows (committed (db s)) vs = (None, tx')
                 \<and> syncBatch s vs =
                     Continue (s\<lparr>stderr := stderr s @ [(lastv s, hd vs)],
                                 db := (db s)\<lparr>committed := tx', pending := None\<rparr>,
                                 lastv := last vs\<rparr>)"
    if "wfTables (committed (db s))" "distinct (map (\<lambda>v. (Path v, Version v)) vs)"
      "\<forall>v \<in> set vs. lookupVersion (committed (db s)) (Path v) (Version v) = []"
  proof -
    from insertRows_fresh [OF that] obtain tx' where
      i: "insertRows (committed (db s)) vs = (None, tx')" by blast
    then have "insertVersions (db s) vs = (None, (db s)\<lparr>committed := tx', pending := None\<rparr>)"
      by (simp add: insertVersions_def)
    with b i show ?thesis by simp
  qed
  have d: "\<exists>tx'. syncBatch s vs =
                     Stop (Failed (InsertBatch InsertVersion))
                       (s\<lparr>stderr := stderr s @ [(lastv s, hd vs)],
                          db := (db s)\<lparr>pending := Some tx'\<rparr>\<rparr>)"
    if "\<exists>v \<in> set vs. lookupVersion (committed (db s)) (Path v) (Version v) \<noteq> []"
  proof -
    from that obtain w where "w \<in> set vs"
      "lookupVersion (committed (db s)) (Path w) (Version w) \<noteq> []" by blast
    from insertVersions_exists_fails [OF this] obtain tx' where
      "insertVersions (db s) vs = (Some InsertVersion, (db s)\<lparr>pending := Some tx'\<rparr>)"
      by blast
    with b have "syncBatch s vs =
                     Stop (Failed (InsertBatch InsertVersion))
                       (s\<lparr>stderr := stderr s @ [(lastv s, hd vs)],
                          db := (db s)\<lparr>pending := Some tx'\<rparr>\<rparr>)"
      by simp
    then show ?thesis by (rule exI)
  qed
  from upsertRows_succeeds [of "committed (db s)" vs] obtain tx' where
    u: "upsertRows (committed (db s)) vs = (None, tx')" by blast
  have e1: "updateRows (lastv s) 0 vs (committed (db s)) (stderr s) =
      (None, tx', stderr s @ [(lastv s, hd vs)])"
    using assms u by (auto simp: vs updateRows_Suc split: sum.splits)
  have "\<not> (length vs = 0 \<or> (length vs = 1 \<and> Path (vs ! 0) = Path (lastv s)
          \<and> Version (vs ! 0) = Version (lastv s) \<and> Timestamp (vs ! 0) = Timestamp (lastv s)))"
    using assms(3) by (auto simp: vs)
  then have e2: "updateBatch s vs =
      Continue (s\<lparr>db := (db s)\<lparr>committed := tx', pending := None\<rparr>,
                  stderr := stderr s @ [(lastv s, hd vs)], lastv := last vs\<rparr>)"
    using e1 by (simp add: updateBatch_def)
  from u e1 e2 have e: "\<exists>tx'. updateRows (lastv s) 0 vs (committed (db s)) (stderr s) =
                   (None, tx', stderr s @ [(lastv s, hd vs)])
              \<and> upsertRows (committed (db s)) vs = (None, tx')
              \<and> updateBatch s vs =
                  Continue (s\<lparr>db := (db s)\<lparr>committed := tx', pending := None\<rparr>,
                              stderr := stderr s @ [(lastv s, hd vs)], lastv := last vs\<rparr>)"
    by blast
  show ?thesis
    using a b c d e by blast
qed

theorem C5_protocol_violation_witness:
  "\<not> IsZero (Timestamp (lastv exState)) \<and> [exB, exC] \<noteq> []
   \<and> \<not> (Path (hd [exB, exC]) = Path (lastv exState)
          \<and> Version (hd [exB, exC]) = Version (lastv exState)
          \<and> Timestamp (hd [exB, exC]) = Timestamp (lastv exState))
   \<and> wfTables (committed (db exState))
   \<and> distinct (map (\<lambda>v. (Path v, Version v)) [exB, exC])
   \<and> lookupVersion (committed (db exState)) (Path exB) (Version exB) = []
   \<and> lookupVersion (committed (db exState)) (Path exC) (Version exC) = []
   \<and> versionsToInsert (lastv exState) [exB, exC] = Some ([(exA, exB)], [exB, exC])
   \<and> (\<exists>tx'. insertRows (committed (db exState)) [exB, exC] = (None, tx')
         \<and> syncBatch exState [exB, exC] =
             Continue (exState\<lparr>stderr := stderr exState @ [(lastv exState, hd [exB, exC])],
                         db := (db exState)\<lparr>committed := tx', pending := None\<rparr>,
                         lastv := last [exB, exC]\<rparr>))
   \<and> (\<exists>tx'. updateRows (lastv exState) 0 [exB, exC] (committed (db exState)) (stderr exState) =
                (None, tx', stderr exState @ [(lastv exState, hd [exB, exC])])
         \<and> upsertRows (committed (db exState)) [exB, exC] = (None, tx')
         \<and> updateBatch exState [exB, exC] =
             Continue (exState\<lparr>db := (db exState)\<lparr>committed := tx', pending := None\<rparr>,
                         stderr := stderr exState @ [(lastv exState, hd [exB, exC])],
                         lastv := last [exB, exC]\<rparr>))
   \<and> lookupVersion (committed (db exState)) (Path exA) (Version exA)
        = [''2019-04-10T19:08:52.997264Z'']
   \<and> (\<exists>tx'. syncBatch exState [exB, exA] =
         Stop (Failed (InsertBatch InsertVersion))
           (exState\<lparr>stderr := stderr exState @ [(lastv exState, hd [exB, exA])],
              db := (db exState)\<lparr>pending := Some tx'\<rparr>\<rparr>))"
proof -
  have h1: "\<not> IsZero (Timestamp (lastv exState))"
    by code_simp
  have h2: "[exB, exC] \<noteq> []" "[exB, exA] \<noteq> []" by simp_all
  have h3: "\<not> (Path (hd [exB, exC]) = Path (lastv exState)
          \<and> Version (hd [exB, exC]) = Version (lastv exState)
          \<and> Timestamp (hd [exB, exC]) = Timestamp (lastv exState))"
    by code_simp
  have h3': "\<not> (Path (hd [exB, exA]) = Path (lastv exState)
          \<and> Version (hd [exB, exA]) = Version (lastv exState)
          \<and> Timestamp (hd [exB, exA]) = Timestamp (lastv exState))"
    by code_simp
  have w: "wfTables (committed (db exState))" by code_simp
  have di: "distinct (map (\<lambda>v. (Path v, Version v)) [exB, exC])" by code_simp
  have lb: "lookupVersion (committed (db exState)) (Path exB) (Version exB) = []" by code_simp
  have lc: "lookupVersion (committed (db exState)) (Path exC) (Version exC) = []" by code_simp
  have la: "lookupVersion (committed (db exState)) (Path exA) (Version exA)
        = [''2019-04-10T19:08:52.997264Z'']" by code_simp
  have fr: "\<forall>v \<in> set [exB, exC]. lookupVersion (committed (db exState)) (Path v) (Version v) = []"
    using lb lc by simp
  have ex: "\<exists>v \<in> set [exB, exA]. lookupVersion (committed (db exState)) (Path v) (Version v) \<noteq> []"
    using la by simp
  have l: "lastv exState = exA" by (simp add: exState_def)
  note c1 = C5_protocol_violation [OF h1 h2(1) h3]
  note c2 = C5_protocol_violation [OF h1 h2(2) h3']
  have v: "versionsToInsert (lastv exState) [exB, exC] = Some ([(exA, exB)], [exB, exC])"
    using c1 [THEN conjunct1] by (simp add: l)
  have s1: "\<exists>tx'. insertRows (committed (db exState)) [exB, exC] = (None, tx')
         \<and> syncBatch exState [exB, exC] =
             Continue (exState\<lparr>stderr := stderr exState @ [(lastv exState, hd [exB, exC])],
                         db := (db exState)\<lparr>committed := tx', pending := None\<rparr>,
                         lastv := last [exB, exC]\<rparr>)"
    using c1 [THEN conjunct2, THEN conjunct2, THEN conjunct1] w di fr by blast
  have s2: "\<exists>tx'. syncBatch exState [exB, exA] =
         Stop (Failed (InsertBatch InsertVersion))
           (exState\<lparr>stderr := stderr exState @ [(lastv exState, hd [exB, exA])],
              db := (db exState)\<lparr>pending := Some tx'\<rparr>\<rparr>)"
    using c2 [THEN conjunct2, THEN conjunct2, THEN conjunct2, THEN conjunct1] ex by blast
  note u = c1 [THEN conjunct2, THEN conjunct2, THEN conjunct2, THEN conjunct2]
  show ?thesis
    by (intro conjI h1 h2(1) h3 w di lb lc v s1 u la s2)
qed

end
